theory Spec2Isabelle
  imports Main
begin

section \<open>JavaScript strings and numbers\<close>

text \<open>
  A JavaScript string is a sequence of UTF-16 code units. The model uses HOL strings, so
  it covers the strings whose code units are below 256. No property below depends on a
  character outside that range: the month names, the digits, the separator and the white space
  that decide every comparison below are ASCII.

  A JavaScript number that may be \<open>NaN\<close> is an \<open>int option\<close>, with \<open>None\<close> for
  \<open>NaN\<close>; \<open>undefined\<close> is \<open>None\<close> of an option type as well.
\<close>

definition toLowerCaseChar :: "char \<Rightarrow> char" where
  "toLowerCaseChar c =
     (let n = (of_char c :: nat)
      in if (65 \<le> n \<and> n \<le> 90) \<or> (192 \<le> n \<and> n \<le> 222 \<and> n \<noteq> 215)
         then char_of (n + 32) else c)"

definition toLowerCase :: "string \<Rightarrow> string" where
  "toLowerCase s = map toLowerCaseChar s"

text \<open>The class \<open>\d\<close> of a JavaScript regular expression: the ten ASCII digits.\<close>

definition isDigit :: "char \<Rightarrow> bool" where
  "isDigit c = (let n = (of_char c :: nat) in 48 \<le> n \<and> n \<le> 57)"

definition digitValue :: "char \<Rightarrow> nat" where
  "digitValue c = of_char c - 48"

definition digitChar :: "nat \<Rightarrow> char" where
  "digitChar n = char_of (48 + n)"

text \<open>The decimal value of a run of digits, most significant digit first.\<close>

definition digitsValue :: "string \<Rightarrow> nat" where
  "digitsValue ds = foldl (\<lambda>acc c. 10 * acc + digitValue c) 0 ds"

text \<open>
  Number to string, for the integers the program prints (all far below \<open>10^21\<close>, where
  JavaScript switches to exponent notation).
\<close>

function showNat :: "nat \<Rightarrow> string" where
  "showNat n = (if n < 10 then [digitChar n] else showNat (n div 10) @ [digitChar (n mod 10)])"
  by pat_completeness auto
termination
  by (relation "measure (\<lambda>n. n)") auto

declare showNat.simps [simp del]

definition showInt :: "int \<Rightarrow> string" where
  "showInt i = (if i < 0 then CHR ''-'' # showNat (nat (- i)) else showNat (nat i))"

definition showNumber :: "int option \<Rightarrow> string" where
  "showNumber v = (case v of None \<Rightarrow> ''NaN'' | Some i \<Rightarrow> showInt i)"

text \<open>
  The white space that \<open>trim\<close> and \<open>parseInt\<close> skip: tab, line feed, vertical tab,
  form feed, carriage return, space and no-break space.
\<close>

definition isWhiteSpace :: "char \<Rightarrow> bool" where
  "isWhiteSpace c = (let n = (of_char c :: nat) in (9 \<le> n \<and> n \<le> 13) \<or> n = 32 \<or> n = 160)"

definition trim :: "string \<Rightarrow> string" where
  "trim s = rev (dropWhile isWhiteSpace (rev (dropWhile isWhiteSpace s)))"

text \<open>\<open>ToString\<close> of a value that is a string or \<open>undefined\<close>.\<close>

definition ToString :: "string option \<Rightarrow> string" where
  "ToString v = (case v of None \<Rightarrow> ''undefined'' | Some s \<Rightarrow> s)"

definition isHexDigit :: "char \<Rightarrow> bool" where
  "isHexDigit c =
     (let n = (of_char c :: nat)
      in (48 \<le> n \<and> n \<le> 57) \<or> (65 \<le> n \<and> n \<le> 70) \<or> (97 \<le> n \<and> n \<le> 102))"

definition hexDigitValue :: "char \<Rightarrow> nat" where
  "hexDigitValue c =
     (let n = (of_char c :: nat)
      in if n \<le> 57 then n - 48 else if n \<le> 70 then n - 55 else n - 87)"

definition hexValue :: "string \<Rightarrow> nat" where
  "hexValue ds = foldl (\<lambda>acc c. 16 * acc + hexDigitValue c) 0 ds"

text \<open>
  \<open>parseInt\<close> with no radix: leading white space is skipped, a sign is read, the
  prefix \<open>0x\<close> selects base 16, and the longest run of digits is the value; \<open>None\<close>
  is \<open>NaN\<close>, the result when there is no digit. The model keeps the exact integer. A
  JavaScript number is exact below \<open>2^53\<close>; the only value used as a number is a day
  of the month, and a day that large lies outside the range of \<open>Date\<close> whether
  rounded or not.
\<close>

definition parseInt :: "string \<Rightarrow> int option" where
  "parseInt inputString =
     (let S = dropWhile isWhiteSpace inputString;
          sign = (if S \<noteq> [] \<and> hd S = CHR ''-'' then - 1 else 1);
          S1 = (if S \<noteq> [] \<and> (hd S = CHR ''+'' \<or> hd S = CHR ''-'') then tl S else S)
      in if take 2 S1 = ''0x'' \<or> take 2 S1 = ''0X''
         then (let Z = takeWhile isHexDigit (drop 2 S1)
               in if Z = [] then None else Some (sign * int (hexValue Z)))
         else (let Z = takeWhile isDigit S1
               in if Z = [] then None else Some (sign * int (digitsValue Z))))"

section \<open>The helpers of the date conversion\<close>

text \<open>\<open>Array.prototype.findIndex\<close>, with \<open>None\<close> for the result \<open>-1\<close>.\<close>

fun findIndex :: "('a \<Rightarrow> bool) \<Rightarrow> 'a list \<Rightarrow> nat option" where
  "findIndex p [] = None"
| "findIndex p (x # xs) =
     (if p x then Some 0 else map_option Suc (findIndex p xs))"

definition monthNames :: "string list" where
  "monthNames = [''jan'', ''feb'', ''mar'', ''apr'', ''may'', ''jun'',
                 ''jul'', ''aug'', ''sep'', ''oct'', ''nov'', ''dec'']"

text \<open>
  \<open>getMonthIndex\<close> compares each month name with the first three characters of the
  whole lower-cased input (\<open>substr(0, 3)\<close>); \<open>None\<close> is its result \<open>undefined\<close>.
\<close>

definition getMonthIndex :: "string \<Rightarrow> nat option" where
  "getMonthIndex month =
     findIndex (\<lambda>m. toLowerCase m = take 3 (toLowerCase month)) monthNames"

text \<open>
  \<open>getDate\<close> returns the first match of \<open>/\d+/\<close>: the first maximal run of digits,
  or \<open>undefined\<close> when the string has no digit.
\<close>

definition getDate :: "string \<Rightarrow> string option" where
  "getDate str =
     (let rest = dropWhile (\<lambda>c. \<not> isDigit c) str
      in if rest = [] then None else Some (takeWhile isDigit rest))"

section \<open>The built-in Date, after the ECMAScript specification\<close>

text \<open>
  Time values are milliseconds since 1 January 1970, \<open>None\<close> is the time value \<open>NaN\<close>
  of an invalid date.
\<close>

definition msPerDay :: int where
  "msPerDay = 86400000"

definition Day :: "int \<Rightarrow> int" where
  "Day t = t div msPerDay"

definition DaysInYear :: "int \<Rightarrow> int" where
  "DaysInYear y =
     (if y mod 4 \<noteq> 0 then 365
      else if y mod 100 \<noteq> 0 then 366
      else if y mod 400 \<noteq> 0 then 365
      else 366)"

definition DayFromYear :: "int \<Rightarrow> int" where
  "DayFromYear y =
     365 * (y - 1970) + (y - 1969) div 4 - (y - 1901) div 100 + (y - 1601) div 400"

definition TimeFromYear :: "int \<Rightarrow> int" where
  "TimeFromYear y = msPerDay * DayFromYear y"

text \<open>
  \<open>YearFromTime t\<close> is the largest year \<open>y\<close> with \<open>TimeFromYear y \<le> t\<close>. It is found
  by a search downwards from a year that is not below it.
\<close>

function yearDown :: "int \<Rightarrow> int \<Rightarrow> int" where
  "yearDown y t = (if TimeFromYear y \<le> t then y else yearDown (y - 1) t)"
  by pat_completeness auto
termination
proof (relation "measure (\<lambda>(y, t). nat (TimeFromYear y - t))")
  show "wf (measure (\<lambda>(y, t). nat (TimeFromYear y - t)))"
    by simp
next
  fix y t :: int
  assume "\<not> TimeFromYear y \<le> t"
  define a b c where "a = (y - 1969) div 4" and "b = (y - 1901) div 100"
    and "c = (y - 1601) div 400"
  define a' b' c' where "a' = (y - 1 - 1969) div 4" and "b' = (y - 1 - 1901) div 100"
    and "c' = (y - 1 - 1601) div 400"
  have "a' \<le> a" "c' \<le> c"
    by (simp_all add: a_def a'_def c_def c'_def zdiv_mono1)
  moreover have "b \<le> b' + 1"
  proof -
    have "(y - 1901) div 100 \<le> (y - 1 - 1901 + 100) div 100"
      by (simp add: zdiv_mono1)
    then show ?thesis
      by (simp add: b_def b'_def)
  qed
  moreover have "DayFromYear (y - 1) = 365 * (y - 1 - 1970) + a' - b' + c'"
    "DayFromYear y = 365 * (y - 1970) + a - b + c"
    by (simp_all add: DayFromYear_def a_def b_def c_def a'_def b'_def c'_def)
  ultimately have "DayFromYear (y - 1) < DayFromYear y"
    by simp
  then have "TimeFromYear (y - 1) < TimeFromYear y"
    by (simp add: TimeFromYear_def msPerDay_def)
  with \<open>\<not> TimeFromYear y \<le> t\<close>
  show "((y - 1, t), (y, t)) \<in> measure (\<lambda>(y, t). nat (TimeFromYear y - t))"
    by simp
qed

declare yearDown.simps [simp del]

definition yearGuess :: "int \<Rightarrow> int" where
  "yearGuess t = 1970 + (if 0 \<le> t then Day t div 365 else Day t div 366)"

definition YearFromTime :: "int \<Rightarrow> int" where
  "YearFromTime t = yearDown (yearGuess t) t"

text \<open>The number of leap days of a year: the result of \<open>InLeapYear\<close>.\<close>

definition leapDay :: "int \<Rightarrow> int" where
  "leapDay y = (if DaysInYear y = 366 then 1 else 0)"

definition InLeapYear :: "int \<Rightarrow> int" where
  "InLeapYear t = leapDay (YearFromTime t)"

definition DayWithinYear :: "int \<Rightarrow> int" where
  "DayWithinYear t = Day t - DayFromYear (YearFromTime t)"

definition MonthFromTime :: "int \<Rightarrow> int" where
  "MonthFromTime t =
     (let d = DayWithinYear t; l = InLeapYear t
      in if d < 31 then 0
         else if d < 59 + l then 1
         else if d < 90 + l then 2
         else if d < 120 + l then 3
         else if d < 151 + l then 4
         else if d < 181 + l then 5
         else if d < 212 + l then 6
         else if d < 243 + l then 7
         else if d < 273 + l then 8
         else if d < 304 + l then 9
         else if d < 334 + l then 10
         else 11)"

definition DateFromTime :: "int \<Rightarrow> int" where
  "DateFromTime t =
     (let d = DayWithinYear t; l = InLeapYear t; m = MonthFromTime t
      in if m = 0 then d + 1
         else if m = 1 then d - 30
         else if m = 2 then d - 58 - l
         else if m = 3 then d - 89 - l
         else if m = 4 then d - 119 - l
         else if m = 5 then d - 150 - l
         else if m = 6 then d - 180 - l
         else if m = 7 then d - 211 - l
         else if m = 8 then d - 242 - l
         else if m = 9 then d - 272 - l
         else if m = 10 then d - 303 - l
         else d - 333 - l)"

text \<open>The number of days of the year \<open>y\<close> before its month \<open>mn\<close> (0 to 11).\<close>

definition monthStart :: "int \<Rightarrow> int \<Rightarrow> int" where
  "monthStart y mn =
     (let l = leapDay y
      in if mn = 0 then 0
         else if mn = 1 then 31
         else if mn = 2 then 59 + l
         else if mn = 3 then 90 + l
         else if mn = 4 then 120 + l
         else if mn = 5 then 151 + l
         else if mn = 6 then 181 + l
         else if mn = 7 then 212 + l
         else if mn = 8 then 243 + l
         else if mn = 9 then 273 + l
         else if mn = 10 then 304 + l
         else 334 + l)"

text \<open>
  \<open>MakeDay\<close>: the day number of the first day of the month, plus the date, minus one.
  Nothing bounds the date, so a date beyond the month's last day is a day of a later
  month.
\<close>

definition MakeDay :: "int option \<Rightarrow> int option \<Rightarrow> int option \<Rightarrow> int option" where
  "MakeDay year month date =
     (case (year, month, date) of
        (Some y, Some m, Some dt) \<Rightarrow>
          (let ym = y + m div 12; mn = m mod 12
           in Some (DayFromYear ym + monthStart ym mn + dt - 1))
      | _ \<Rightarrow> None)"

definition MakeDate :: "int option \<Rightarrow> int \<Rightarrow> int option" where
  "MakeDate day time = (case day of None \<Rightarrow> None | Some d \<Rightarrow> Some (d * msPerDay + time))"

definition TimeClip :: "int option \<Rightarrow> int option" where
  "TimeClip time =
     (case time of
        None \<Rightarrow> None
      | Some t \<Rightarrow> if \<bar>t\<bar> > 8640000000000000 then None else Some t)"

definition MakeFullYear :: "int option \<Rightarrow> int option" where
  "MakeFullYear year =
     (case year of
        None \<Rightarrow> None
      | Some y \<Rightarrow> if 0 \<le> y \<and> y \<le> 99 then Some (1900 + y) else Some y)"

text \<open>
  The time zone of the process. \<open>new Date(year, month, date)\<close> reads its arguments
  as local time and the getters return local fields, so both depend on the zone:
  \<open>offsetAtUTC z t\<close> is the offset of local time from UTC, in milliseconds, at the
  UTC time value \<open>t\<close>, and \<open>offsetAtLocal z t\<close> is the offset the implementation
  chooses for the local time value \<open>t\<close> (at a local time that the zone skips or
  repeats, the ECMAScript specification says which).
\<close>

record zone =
  offsetAtUTC :: "int \<Rightarrow> int"
  offsetAtLocal :: "int \<Rightarrow> int"

definition LocalTime :: "zone \<Rightarrow> int \<Rightarrow> int" where
  "LocalTime z t = t + offsetAtUTC z t"

definition UTC :: "zone \<Rightarrow> int \<Rightarrow> int" where
  "UTC z t = t - offsetAtLocal z t"

text \<open>\<open>new Date(year, month, date)\<close>: the time value of the new object.\<close>

definition newDate :: "zone \<Rightarrow> int option \<Rightarrow> int option \<Rightarrow> int option \<Rightarrow> int option" where
  "newDate z year month date =
     TimeClip (map_option (UTC z) (MakeDate (MakeDay (MakeFullYear year) month date) 0))"

text \<open>
  The getters of a date object. Its method \<open>getDate\<close> is \<open>getDateOfMonth\<close> here:
  \<open>getDate\<close> is the name of a helper of the program.
\<close>

definition getFullYear :: "zone \<Rightarrow> int option \<Rightarrow> int option" where
  "getFullYear z tv = map_option (\<lambda>t. YearFromTime (LocalTime z t)) tv"

definition getMonth :: "zone \<Rightarrow> int option \<Rightarrow> int option" where
  "getMonth z tv = map_option (\<lambda>t. MonthFromTime (LocalTime z t)) tv"

definition getDateOfMonth :: "zone \<Rightarrow> int option \<Rightarrow> int option" where
  "getDateOfMonth z tv = map_option (\<lambda>t. DateFromTime (LocalTime z t)) tv"

section \<open>dateFormatConversion\<close>

text \<open>
  \<open>z\<close> is the time zone of the process and \<open>currentYear\<close> is
  \<open>new Date().getFullYear()\<close>, the calendar year read from the clock when the function
  runs. The function has no branch that throws on a string.
\<close>

definition dateFormatConversion :: "zone \<Rightarrow> int \<Rightarrow> string \<Rightarrow> string" where
  "dateFormatConversion z currentYear input =
     (let date = newDate z (Some currentYear)
                   (map_option int (getMonthIndex input))
                   (parseInt (ToString (getDate input)))
      in showNumber (getFullYear z date) @ ''/''
         @ showNumber (map_option (\<lambda>m. m + 1) (getMonth z date)) @ ''/''
         @ showNumber (getDateOfMonth z date))"

section \<open>The scraper\<close>

text \<open>One entry of the list that the evaluation of the page returns.\<close>

record article =
  headline :: string
  url :: string
  author :: string
  date :: string

text \<open>The instance variables of the class; \<open>scraper_id\<close> is the field \<open>id\<close>.\<close>

record VergeScraper =
  headlines :: "string list"
  authors :: "string list"
  dates :: "string list"
  urls :: "string list"
  scraper_id :: nat

definition constructor :: VergeScraper where
  "constructor = \<lparr>headlines = [], authors = [], dates = [], urls = [], scraper_id = 0\<rparr>"

text \<open>
  \<open>scrape\<close>, from the point where the page has been evaluated: \<open>data\<close> is the list the
  browser returned, and each entry is pushed onto the four arrays.
\<close>

definition storeArticle :: "VergeScraper \<Rightarrow> article \<Rightarrow> VergeScraper" where
  "storeArticle s articleData =
     s\<lparr>headlines := headlines s @ [headline articleData],
       authors := authors s @ [author articleData],
       dates := dates s @ [date articleData],
       urls := urls s @ [url articleData]\<rparr>"

definition scrape :: "article list \<Rightarrow> VergeScraper \<Rightarrow> VergeScraper" where
  "scrape data s = foldl storeArticle s data"

text \<open>Reading an array at an index: \<open>undefined\<close> beyond its end.\<close>

definition elementAt :: "'a list \<Rightarrow> nat \<Rightarrow> 'a option" where
  "elementAt xs i = (if i < length xs then Some (xs ! i) else None)"

subsection \<open>The text file\<close>

text \<open>
  The files, by name. \<open>appendFile\<close> creates a file that does not exist. The
  operations of the file system are taken to succeed.
\<close>

type_synonym files = "string \<rightharpoonup> string"

definition writeFile :: "string \<Rightarrow> string \<Rightarrow> files \<Rightarrow> files" where
  "writeFile name data fs = fs(name \<mapsto> data)"

definition appendFile :: "string \<Rightarrow> string \<Rightarrow> files \<Rightarrow> files" where
  "appendFile name data fs =
     fs(name \<mapsto> (case fs name of None \<Rightarrow> data | Some old \<Rightarrow> old @ data))"

definition newline :: char where
  "newline = CHR 0x0A"

definition dquote :: char where
  "dquote = CHR 0x22"

definition DATE_FORMAT :: string where
  "DATE_FORMAT = ''ddmmyyyy''"

definition filename :: string where
  "filename = DATE_FORMAT @ ''_verge.csv''"

definition headerText :: string where
  "headerText = ''id | URL | headline | author | date''"

definition header :: string where
  "header = headerText @ [newline]"

text \<open>The line of one article, as the template literal builds it.\<close>

definition csvLine ::
    "nat \<Rightarrow> string option \<Rightarrow> string option \<Rightarrow> string option \<Rightarrow> string \<Rightarrow> string" where
  "csvLine n u h a d =
     showNat n @ '' | '' @ ToString u @ '' | '' @ [dquote] @ ToString h @ [dquote]
       @ '' | '' @ ToString a @ '' | '' @ d @ [newline]"

text \<open>
  The only exception the loop can raise by itself: \<open>dateFormatConversion\<close> calls
  \<open>toLowerCase\<close> on its argument, a \<open>TypeError\<close> when \<open>this.dates[i]\<close> is \<open>undefined\<close>.
  The counter has been incremented by then.
\<close>

datatype js_error = TypeError

text \<open>
  The loop of \<open>saveToCsv\<close> from index \<open>i\<close>. \<open>z\<close> is the time zone of the process and
  \<open>year\<close> the calendar year of the clock during the call.
\<close>

function saveToCsvLoop ::
    "zone \<Rightarrow> int \<Rightarrow> nat \<Rightarrow> VergeScraper \<Rightarrow> files
      \<Rightarrow> (js_error \<times> VergeScraper \<times> files) + (VergeScraper \<times> files)" where
  "saveToCsvLoop z year i s fs =
     (if i < length (headlines s) then
        (let s' = s\<lparr>scraper_id := scraper_id s + 1\<rparr>
         in case elementAt (dates s') i of
              None \<Rightarrow> Inl (TypeError, s', fs)
            | Some raw \<Rightarrow>
                saveToCsvLoop z year (i + 1) s'
                  (appendFile filename
                     (csvLine (scraper_id s') (elementAt (urls s') i)
                        (elementAt (headlines s') i) (elementAt (authors s') i)
                        (dateFormatConversion z year raw))
                     fs))
      else Inr (s, fs))"
  by pat_completeness auto
termination
  by (relation "measure (\<lambda>(z, year, i, s, fs). length (headlines s) - i)") auto

declare saveToCsvLoop.simps [simp del]

definition saveToCsv ::
    "zone \<Rightarrow> int \<Rightarrow> VergeScraper \<Rightarrow> files
      \<Rightarrow> (js_error \<times> VergeScraper \<times> files) + (VergeScraper \<times> files)" where
  "saveToCsv z year s fs = saveToCsvLoop z year 0 s (writeFile filename header fs)"

text \<open>
  The content of the text file after a call of \<open>saveToCsv\<close>, as \<open>readFile\<close> finds
  it.
\<close>

definition readFile :: "string \<Rightarrow> files \<Rightarrow> string option" where
  "readFile name fs = fs name"

definition fileAfter ::
    "(js_error \<times> VergeScraper \<times> files) + (VergeScraper \<times> files) \<Rightarrow> string option" where
  "fileAfter r =
     (case r of Inl (e, s, fs) \<Rightarrow> readFile filename fs | Inr (s, fs) \<Rightarrow> readFile filename fs)"

subsection \<open>The database\<close>

text \<open>
  A row of the table \<open>articles\<close>; a column is \<open>None\<close> for \<open>NULL\<close>, which is what an
  \<open>undefined\<close> parameter is bound to. The database is \<open>None\<close> while the table does not
  exist. The column \<open>id\<close> is an \<open>INTEGER PRIMARY KEY\<close>: an insert that gives no id gets
  the largest id of the table plus one.
\<close>

record row =
  col_id :: nat
  col_url :: "string option"
  col_headline :: "string option"
  col_author :: "string option"
  col_date :: "string option"

type_synonym database = "row list option"

definition createTableIfNotExists :: "database \<Rightarrow> row list" where
  "createTableIfNotExists db = (case db of None \<Rightarrow> [] | Some t \<Rightarrow> t)"

definition nextRowid :: "row list \<Rightarrow> nat" where
  "nextRowid t = foldl max 0 (map col_id t) + 1"

definition insertRow ::
    "string option \<Rightarrow> string option \<Rightarrow> string option \<Rightarrow> string option \<Rightarrow> row list \<Rightarrow> row list" where
  "insertRow u h a d t =
     t @ [\<lparr>col_id = nextRowid t, col_url = u, col_headline = h, col_author = a, col_date = d\<rparr>]"

text \<open>
  \<open>saveToDatabase\<close>. \<open>err\<close> is the error the creation of the table reports, if any; then
  nothing is inserted. Otherwise every article is inserted with a plain \<open>INSERT\<close>, and
  the table has no constraint besides its primary key.
\<close>

definition saveToDatabase :: "string option \<Rightarrow> VergeScraper \<Rightarrow> database \<Rightarrow> database" where
  "saveToDatabase err s db =
     (case err of
        Some message \<Rightarrow> db
      | None \<Rightarrow>
          Some (foldl
            (\<lambda>t i. insertRow (elementAt (urls s) i) (elementAt (headlines s) i)
                     (elementAt (authors s) i) (elementAt (dates s) i) t)
            (createTableIfNotExists db)
            [0 ..< length (headlines s)]))"

section \<open>The verification in runTests\<close>

text \<open>\<open>String.prototype.split\<close> with a separator of one character.\<close>

fun splitOn :: "char \<Rightarrow> string \<Rightarrow> string list" where
  "splitOn c [] = [[]]"
| "splitOn c (x # xs) =
     (if x = c then [] # splitOn c xs
      else (case splitOn c xs of
              [] \<Rightarrow> [[x]]
            | y # ys \<Rightarrow> (x # y) # ys))"

definition startsWith :: "string \<Rightarrow> string \<Rightarrow> bool" where
  "startsWith s p = (take (length p) s = p)"

text \<open>What the verification prints, with the number of the line where there is one.\<close>

datatype console =
    HeaderMismatch
  | FieldCount nat
  | InvalidId nat
  | InvalidUrl nat
  | EmptyHeadline nat
  | EmptyAuthor nat
  | EmptyDate nat
  | QueryError
  | CountMismatch nat nat
  | AllTestsPassed

definition csvFields :: "string \<Rightarrow> string list" where
  "csvFields line = map trim (splitOn (CHR ''|'') (trim line))"

text \<open>The body of the loop over the lines, for the line at index \<open>i\<close>.\<close>

definition checkLine :: "nat \<Rightarrow> string \<Rightarrow> console list" where
  "checkLine i line =
     (let fields = csvFields line
      in if length fields \<noteq> 5 then [FieldCount (i + 1)]
         else (if parseInt (fields ! 0) = None then [InvalidId (i + 1)] else [])
            @ (if \<not> startsWith (fields ! 1) ''http'' then [InvalidUrl (i + 1)] else [])
            @ (if length (fields ! 2) = 0 then [EmptyHeadline (i + 1)] else [])
            @ (if length (fields ! 3) = 0 then [EmptyAuthor (i + 1)] else [])
            @ (if length (fields ! 4) = 0 then [EmptyDate (i + 1)] else []))"

text \<open>The callback of the count query, on the table the query sees.\<close>

definition checkDatabase :: "database \<Rightarrow> VergeScraper \<Rightarrow> console list" where
  "checkDatabase db scraper =
     (case db of
        None \<Rightarrow> [QueryError]
      | Some t \<Rightarrow>
          if length t \<noteq> length (headlines scraper)
          then [CountMismatch (length t) (length (headlines scraper))]
          else [AllTestsPassed])"

text \<open>
  The lines the loop visits: index 1 up to the last but one (the text after the final
  line feed is not visited).
\<close>

definition dataLineIndices :: "string list \<Rightarrow> nat list" where
  "dataLineIndices csvLines = [1 ..< length csvLines - 1]"

text \<open>
  The verification, on the content read from the file: a header that does not match
  ends it at once.
\<close>

definition verify :: "VergeScraper \<Rightarrow> string \<Rightarrow> database \<Rightarrow> console list" where
  "verify scraper csvData db =
     (let csvLines = splitOn newline csvData
      in if trim (csvLines ! 0) \<noteq> headerText then [HeaderMismatch]
         else concat (map (\<lambda>i. checkLine i (csvLines ! i)) (dataLineIndices csvLines))
              @ checkDatabase db scraper)"

section \<open>Example data\<close>

text \<open>
  A zone with one offset at all times; UTC; the zone of India, five and a half hours
  ahead of UTC.
\<close>

definition fixedZone :: "int \<Rightarrow> zone" where
  "fixedZone c = \<lparr>offsetAtUTC = (\<lambda>t. c), offsetAtLocal = (\<lambda>t. c)\<rparr>"

definition utcZone :: zone where
  "utcZone = fixedZone 0"

definition indiaZone :: zone where
  "indiaZone = fixedZone 19800000"

text \<open>
  The zone \<open>Pacific/Apia\<close> at the end of 2011: ten hours behind UTC until
  30 December 2011, 10:00 UTC, and fourteen hours ahead from then on, so that the local
  day 30 December 2011 does not exist. Local times of that day are read with the
  offset before the change.
\<close>

definition apiaZone :: zone where
  "apiaZone =
     \<lparr>offsetAtUTC = (\<lambda>t. if t < 1325239200000 then - 36000000 else 50400000),
      offsetAtLocal = (\<lambda>t. if t < 1325289600000 then - 36000000 else 50400000)\<rparr>"

text \<open>The article of the end-to-end scenario, and a second one.\<close>

definition articleA :: article where
  "articleA = \<lparr>headline = ''A'', url = ''https://x/1'', author = ''Bob'', date = ''Jan 5''\<rparr>"

definition articleB :: article where
  "articleB = \<lparr>headline = ''B'', url = ''https://x/2'', author = ''Eve'', date = ''Mar 14''\<rparr>"

text \<open>A file with the right header and one line that fails five checks.\<close>

definition badRows :: string where
  "badRows = headerText @ [newline] @ ''x | ftp://y |  |  | '' @ [newline]"

text \<open>An article whose author is the empty string.\<close>

definition articleNoAuthor :: article where
  "articleNoAuthor = \<lparr>headline = ''A'', url = ''https://x/1'', author = [], date = ''Jan 5''\<rparr>"

text \<open>An article whose raw date is the string that the conversion returns for a date it cannot parse.\<close>

definition articleNaN :: article where
  "articleNaN = \<lparr>headline = ''A'', url = ''https://x/1'', author = ''Bob'', date = ''NaN/NaN/NaN''\<rparr>"

section \<open>Notions for stating the properties\<close>

text \<open>
  The length of month \<open>m\<close> (0 to 11) of year \<open>y\<close>, for stating the claims: the
  difference of two consecutive month starts.
\<close>

definition daysInMonth :: "int \<Rightarrow> nat \<Rightarrow> int" where
  "daysInMonth y m =
     (if m = 1 then 28 + leapDay y
      else if m = 3 \<or> m = 5 \<or> m = 8 \<or> m = 10 then 30
      else 31)"

text \<open>
  The day number of day \<open>d\<close> of month \<open>m\<close> (0 to 11) of year \<open>y\<close>, as \<open>MakeDay\<close>
  computes it.
\<close>

definition dayNumber :: "int \<Rightarrow> nat \<Rightarrow> int \<Rightarrow> int" where
  "dayNumber y m d = DayFromYear y + monthStart y (int m) + d - 1"

text \<open>
  The zone keeps the local day with number \<open>day\<close>: the offset chosen at its local
  midnight is at most a day, and that midnight, taken to UTC and back to local time,
  is a time of the same day. A zone fails this on a local day that it skips.
\<close>

definition keepsDay :: "zone \<Rightarrow> int \<Rightarrow> bool" where
  "keepsDay z day \<longleftrightarrow>
     \<bar>offsetAtLocal z (day * msPerDay)\<bar> \<le> msPerDay
     \<and> Day (LocalTime z (UTC z (day * msPerDay))) = day"

text \<open>The four arrays have one length: \<open>scrape\<close> is the only code that extends them.\<close>

definition wellFormed :: "VergeScraper \<Rightarrow> bool" where
  "wellFormed s \<longleftrightarrow>
     length (authors s) = length (headlines s) \<and> length (dates s) = length (headlines s)
     \<and> length (urls s) = length (headlines s)"

text \<open>
  The lines that \<open>saveToCsv\<close> appends for the articles from index \<open>i\<close> on, when the
  article at index \<open>j\<close> gets the number \<open>base + j + 1\<close>.
\<close>

definition csvRowsFrom :: "zone \<Rightarrow> int \<Rightarrow> nat \<Rightarrow> nat \<Rightarrow> VergeScraper \<Rightarrow> string" where
  "csvRowsFrom z year base i s =
     concat (map (\<lambda>j. csvLine (base + j + 1) (Some (urls s ! j))
                         (Some (headlines s ! j)) (Some (authors s ! j))
                         (dateFormatConversion z year (dates s ! j)))
                 [i ..< length (headlines s)])"

text \<open>The row that \<open>saveToDatabase\<close> inserts for the article at index \<open>i\<close>.\<close>

definition insertedRow :: "nat \<Rightarrow> VergeScraper \<Rightarrow> nat \<Rightarrow> row" where
  "insertedRow first s i =
     \<lparr>col_id = first + i, col_url = elementAt (urls s) i, col_headline = elementAt (headlines s) i,
      col_author = elementAt (authors s) i, col_date = elementAt (dates s) i\<rparr>"

text \<open>Every message of a line carries the number of that line.\<close>

fun lineOf :: "console \<Rightarrow> nat option" where
  "lineOf (FieldCount n) = Some n"
| "lineOf (InvalidId n) = Some n"
| "lineOf (InvalidUrl n) = Some n"
| "lineOf (EmptyHeadline n) = Some n"
| "lineOf (EmptyAuthor n) = Some n"
| "lineOf (EmptyDate n) = Some n"
| "lineOf _ = None"

text \<open>The characters of a result of the date conversion.\<close>

definition dateChar :: "char \<Rightarrow> bool" where
  "dateChar c \<longleftrightarrow>
     isDigit c \<or> c = CHR ''-'' \<or> c = CHR ''N'' \<or> c = CHR ''a'' \<or> c = CHR ''/''"

text \<open>A line without its line feed, for fields that are strings.\<close>

definition csvText :: "nat \<Rightarrow> string \<Rightarrow> string \<Rightarrow> string \<Rightarrow> string \<Rightarrow> string" where
  "csvText n u h a d =
     showNat n @ '' | '' @ u @ '' | '' @ [dquote] @ h @ [dquote] @ '' | '' @ a @ '' | '' @ d"

text \<open>
  The rows the verification obtains from the content of the file: the lines its loop
  visits, each split on the separator, with trimmed fields.
\<close>

definition parsedRows :: "string \<Rightarrow> string list list" where
  "parsedRows csvData =
     (let csvLines = splitOn newline csvData
      in map (\<lambda>i. csvFields (csvLines ! i)) (dataLineIndices csvLines))"

text \<open>
  An article whose URL, headline and author have no separator and no line feed, whose
  URL begins with \<open>http\<close> and whose author is not blank.
\<close>

definition cleanArticle :: "article \<Rightarrow> bool" where
  "cleanArticle a \<longleftrightarrow>
     (\<forall>c \<in> set (url a) \<union> set (headline a) \<union> set (author a). c \<noteq> CHR ''|'' \<and> c \<noteq> newline)
     \<and> startsWith (url a) ''http'' \<and> trim (author a) \<noteq> []"

text \<open>The month after month \<open>m\<close> of year \<open>y\<close>, for stating the claim.\<close>

definition nextMonth :: "int \<Rightarrow> nat \<Rightarrow> int \<times> nat" where
  "nextMonth y m = (if m = 11 then (y + 1, 0) else (y, m + 1))"

section \<open>Properties of the calendar functions\<close>

lemma div_succ_int:
  fixes a k :: int
  assumes "0 < k"
  shows "(a + 1) div k = a div k + (if (a + 1) mod k = 0 then 1 else 0)"
proof -
  define q where "q = a div k"
  define r where "r = a mod k"
  have a: "a + 1 = (r + 1) + k * q"
    by (simp add: q_def r_def)
  have r: "0 \<le> r" "r < k"
    using assms by (simp_all add: r_def)
  have d: "(a + 1) div k = q + (r + 1) div k"
    unfolding a using assms by (simp only: div_mult_self2)
  have m: "(a + 1) mod k = (r + 1) mod k"
    unfolding a by (simp only: mod_mult_self2)
  show ?thesis
  proof (cases "r + 1 = k")
    case True
    then show ?thesis
      using assms d m by (simp add: q_def)
  next
    case False
    then have "r + 1 < k" using r by simp
    then have "(r + 1) div k = 0" "(r + 1) mod k = r + 1"
      using r by simp_all
    then show ?thesis
      using d m r by (simp add: q_def)
  qed
qed

lemma mod_400_100: "(y::int) mod 400 = 0 \<Longrightarrow> y mod 100 = 0"
proof -
  assume "y mod 400 = 0"
  then have "400 dvd y" by (simp add: dvd_eq_mod_eq_0)
  moreover have "(100::int) dvd 400" by simp
  ultimately have "100 dvd y" by (rule dvd_trans [rotated])
  then show ?thesis by (simp add: dvd_eq_mod_eq_0)
qed

lemma mod_100_4: "(y::int) mod 100 = 0 \<Longrightarrow> y mod 4 = 0"
proof -
  assume "y mod 100 = 0"
  then have "100 dvd y" by (simp add: dvd_eq_mod_eq_0)
  moreover have "(4::int) dvd 100" by simp
  ultimately have "4 dvd y" by (rule dvd_trans [rotated])
  then show ?thesis by (simp add: dvd_eq_mod_eq_0)
qed

lemma mod_shift4: "(y - 1968) mod 4 = (y::int) mod 4"
  using mod_mult_self2 [of y 4 "-492"] by simp

lemma mod_shift100: "(y - 1900) mod 100 = (y::int) mod 100"
  using mod_mult_self2 [of y 100 "-19"] by simp

lemma mod_shift400: "(y - 1600) mod 400 = (y::int) mod 400"
  using mod_mult_self2 [of y 400 "-4"] by simp

text \<open>The day numbers of consecutive years differ by the length of the year.\<close>

lemma DayFromYear_Suc: "DayFromYear (y + 1) = DayFromYear y + DaysInYear y"
proof -
  have 1: "(y + 1 - 1969) div 4 = (y - 1969) div 4 + (if y mod 4 = 0 then 1 else 0)"
    using div_succ_int [of 4 "y - 1969"] by (simp add: mod_shift4)
  have 2: "(y + 1 - 1901) div 100 = (y - 1901) div 100 + (if y mod 100 = 0 then 1 else 0)"
    using div_succ_int [of 100 "y - 1901"] by (simp add: mod_shift100)
  have 3: "(y + 1 - 1601) div 400 = (y - 1601) div 400 + (if y mod 400 = 0 then 1 else 0)"
    using div_succ_int [of 400 "y - 1601"] by (simp add: mod_shift400)
  show ?thesis
    unfolding DayFromYear_def DaysInYear_def 1 2 3
    using mod_400_100 [of y] mod_100_4 [of y] by auto
qed

lemma DaysInYear_cases: "DaysInYear y = 365 \<or> DaysInYear y = 366"
  by (simp add: DaysInYear_def)

lemma DaysInYear_pos: "0 < DaysInYear y"
  using DaysInYear_cases [of y] by auto

lemma DayFromYear_mono: "y \<le> y' \<Longrightarrow> DayFromYear y \<le> DayFromYear y'"
proof (induction y' rule: int_ge_induct)
  case base
  show ?case by simp
next
  case (step i)
  then show ?case
    using DaysInYear_pos [of i] by (simp add: DayFromYear_Suc)
qed

lemma DayFromYear_1970: "DayFromYear 1970 = 0"
  by (simp add: DayFromYear_def)

lemma DayFromYear_ge_1970: "1970 \<le> y \<Longrightarrow> 365 * (y - 1970) \<le> DayFromYear y"
proof (induction y rule: int_ge_induct)
  case base
  show ?case by (simp add: DayFromYear_1970)
next
  case (step i)
  then show ?case
    using DaysInYear_cases [of i] by (auto simp: DayFromYear_Suc)
qed

lemma DayFromYear_le_1970: "y \<le> 1970 \<Longrightarrow> 366 * (y - 1970) \<le> DayFromYear y"
proof (induction y rule: int_le_induct)
  case base
  show ?case by (simp add: DayFromYear_1970)
next
  case (step i)
  then show ?case
    using DaysInYear_cases [of "i - 1"] DayFromYear_Suc [of "i - 1"] by auto
qed

lemma mult_le_iff_le_div:
  fixes k d t :: int
  assumes "0 < k"
  shows "k * d \<le> t \<longleftrightarrow> d \<le> t div k"
proof
  assume "k * d \<le> t"
  from zdiv_mono1 [OF this assms] show "d \<le> t div k"
    using assms by simp
next
  assume "d \<le> t div k"
  then have "k * d \<le> k * (t div k)"
    using assms by simp
  also have "\<dots> \<le> t"
    using assms mult_div_mod_eq [of k t] pos_mod_sign [of k t] by linarith
  finally show "k * d \<le> t" .
qed

lemma TimeFromYear_le_iff: "TimeFromYear y \<le> t \<longleftrightarrow> DayFromYear y \<le> Day t"
  unfolding TimeFromYear_def Day_def
  by (rule mult_le_iff_le_div) (simp add: msPerDay_def)

lemma yearDown_finds:
  assumes "DayFromYear y \<le> Day t" and "Day t < DayFromYear (y + 1)" and "y \<le> y0"
  shows "yearDown y0 t = y"
  using assms(3)
proof (induction y0 rule: int_ge_induct)
  case base
  show ?case
    using assms(1) by (subst yearDown.simps) (simp add: TimeFromYear_le_iff)
next
  case (step i)
  have "Day t < DayFromYear (i + 1)"
    using assms(2) DayFromYear_mono [of "y + 1" "i + 1"] step.hyps by simp
  then show ?case
    using step.IH by (subst yearDown.simps) (simp add: TimeFromYear_le_iff)
qed

lemma yearGuess_upper:
  assumes "DayFromYear y \<le> Day t"
  shows "y \<le> yearGuess t"
proof (cases "0 \<le> t")
  case True
  then have d: "0 \<le> Day t"
    by (simp add: Day_def msPerDay_def pos_imp_zdiv_nonneg_iff)
  show ?thesis
  proof (cases "1970 \<le> y")
    case True
    then have "365 * (y - 1970) \<le> Day t"
      using DayFromYear_ge_1970 [of y] assms by simp
    then have "y - 1970 \<le> Day t div 365"
      by (simp add: mult_le_iff_le_div)
    then show ?thesis
      using \<open>0 \<le> t\<close> by (simp add: yearGuess_def)
  next
    case False
    moreover have "0 \<le> Day t div 365"
      using d by (simp add: pos_imp_zdiv_nonneg_iff)
    ultimately show ?thesis
      using \<open>0 \<le> t\<close> by (simp add: yearGuess_def)
  qed
next
  case False
  then have d: "Day t < 0"
    by (simp add: Day_def msPerDay_def div_neg_pos_less0)
  have "y < 1970"
  proof (rule ccontr)
    assume "\<not> y < 1970"
    then have "DayFromYear 1970 \<le> DayFromYear y"
      by (simp add: DayFromYear_mono)
    then show False
      using assms d by (simp add: DayFromYear_1970)
  qed
  then have "366 * (y - 1970) \<le> Day t"
    using DayFromYear_le_1970 [of y] assms by simp
  then have "y - 1970 \<le> Day t div 366"
    by (simp add: mult_le_iff_le_div)
  then show ?thesis
    using False by (simp add: yearGuess_def)
qed

text \<open>The search computes the year the ECMAScript specification describes.\<close>

lemma YearFromTime_eq:
  assumes "DayFromYear y \<le> Day t" and "Day t < DayFromYear (y + 1)"
  shows "YearFromTime t = y"
  unfolding YearFromTime_def
  using assms yearGuess_upper [OF assms(1)] by (rule yearDown_finds)

lemma Day_of_days: "Day (d * msPerDay) = d"
  by (simp add: Day_def msPerDay_def)

text \<open>
  The fields of a time value depend on its day number only: a time of day \<open>k\<close> of
  year \<open>y\<close> has that year and that day within it.
\<close>

lemma day_in_year:
  assumes "Day t = DayFromYear y + k" and "0 \<le> k" and "k < DaysInYear y"
  shows "YearFromTime t = y"
    and "DayWithinYear t = k"
    and "InLeapYear t = leapDay y"
proof -
  show y: "YearFromTime t = y"
    using assms by (intro YearFromTime_eq) (simp_all add: DayFromYear_Suc)
  show "DayWithinYear t = k"
    by (simp add: DayWithinYear_def y assms(1))
  show "InLeapYear t = leapDay y"
    by (simp add: InLeapYear_def y)
qed

lemma leapDay_range: "0 \<le> leapDay y" "leapDay y \<le> 1"
  by (simp_all add: leapDay_def)

lemma DaysInYear_leapDay: "DaysInYear y = 365 + leapDay y"
  using DaysInYear_cases [of y] by (auto simp: leapDay_def)

lemma month_index_cases:
  fixes m :: nat
  assumes "m < 12"
  obtains "m = 0" | "m = 1" | "m = 2" | "m = 3" | "m = 4" | "m = 5"
    | "m = 6" | "m = 7" | "m = 8" | "m = 9" | "m = 10" | "m = 11"
proof -
  have "m = 0 \<or> m = 1 \<or> m = 2 \<or> m = 3 \<or> m = 4 \<or> m = 5
      \<or> m = 6 \<or> m = 7 \<or> m = 8 \<or> m = 9 \<or> m = 10 \<or> m = 11"
    using assms by arith
  then show thesis
    using that by blast
qed

lemma monthStart_next:
  "m < 11 \<Longrightarrow> monthStart y (int m + 1) = monthStart y (int m) + daysInMonth y m"
proof -
  assume "m < 11"
  then have "m < 12" by simp
  then show ?thesis
    using \<open>m < 11\<close> by (cases rule: month_index_cases) (simp_all add: monthStart_def daysInMonth_def)
qed

lemma monthStart_december: "monthStart y 11 + 31 = DaysInYear y"
  by (simp add: monthStart_def DaysInYear_leapDay)

lemma month_fields:
  assumes m: "m < 12" and k: "monthStart y (int m) \<le> k" "k < monthStart y (int m) + daysInMonth y m"
    and t: "Day t = DayFromYear y + k"
  shows "YearFromTime t = y" and "MonthFromTime t = int m"
    and "DateFromTime t = k - monthStart y (int m) + 1"
proof -
  note mc = month_index_cases [OF m]
  note l = leapDay_range [of y]
  have k0: "0 \<le> k"
    using k(1) l by (cases rule: mc) (simp_all add: monthStart_def)
  have k1: "k < DaysInYear y"
    using k(2) l 
    by (cases rule: mc) (simp_all add: monthStart_def daysInMonth_def DaysInYear_leapDay)
  note f = day_in_year [OF t k0 k1]
  show "YearFromTime t = y"
    by (rule f)
  show mo: "MonthFromTime t = int m"
    using k l
    by (cases rule: mc) (simp_all add: MonthFromTime_def f monthStart_def daysInMonth_def)
  show "DateFromTime t = k - monthStart y (int m) + 1"
    by (cases rule: mc) (simp_all add: DateFromTime_def mo f monthStart_def)
qed

text \<open>
  The day that \<open>MakeDay\<close> starts from is the first of the month: the time value the
  ECMAScript specification asks for.
\<close>

lemma first_of_month:
  assumes "m < 12" and "t = (DayFromYear y + monthStart y (int m)) * msPerDay"
  shows "YearFromTime t = y \<and> MonthFromTime t = int m \<and> DateFromTime t = 1"
proof -
  have "0 < daysInMonth y m"
    using leapDay_range [of y] by (simp add: daysInMonth_def)
  then have "monthStart y (int m) < monthStart y (int m) + daysInMonth y m"
    by simp
  moreover have "Day t = DayFromYear y + monthStart y (int m)"
    by (simp add: assms(2) Day_of_days)
  ultimately show ?thesis
    using month_fields [OF assms(1) order_refl, of y t] by simp
qed

section \<open>Properties of the string helpers\<close>

lemma of_char_digitChar: "n < 10 \<Longrightarrow> of_char (digitChar n) = 48 + n"
  by (simp add: digitChar_def of_char_of)

lemma isDigit_digitChar: "n < 10 \<Longrightarrow> isDigit (digitChar n)"
  by (simp add: isDigit_def of_char_digitChar)

lemma digitValue_digitChar: "n < 10 \<Longrightarrow> digitValue (digitChar n) = n"
  by (simp add: digitValue_def of_char_digitChar)

lemma digitChar_eq_zero: "n < 10 \<Longrightarrow> digitChar n = CHR ''0'' \<longleftrightarrow> n = 0"
proof
  assume "n < 10" "digitChar n = CHR ''0''"
  then have "(of_char (digitChar n) :: nat) = of_char (CHR ''0'')" by simp
  then show "n = 0" using \<open>n < 10\<close> by (simp add: of_char_digitChar)
next
  assume "n = 0"
  moreover have "char_of (of_char (CHR ''0'') :: nat) = CHR ''0''"
    by (rule char_of_char)
  ultimately show "digitChar n = CHR ''0''"
    by (simp add: digitChar_def)
qed

lemma showNat_not_Nil: "showNat n \<noteq> []"
  by (subst showNat.simps) simp

lemma showNat_digits: "\<forall>c \<in> set (showNat n). isDigit c"
proof (induction n rule: showNat.induct)
  case (1 n)
  show ?case
  proof (cases "n < 10")
    case True
    then show ?thesis by (subst showNat.simps) (simp add: isDigit_digitChar)
  next
    case False
    then show ?thesis
      using 1 by (subst showNat.simps) (simp add: isDigit_digitChar)
  qed
qed

lemma showNat_no_leading_zero: "0 < n \<Longrightarrow> hd (showNat n) \<noteq> CHR ''0''"
proof (induction n rule: showNat.induct)
  case (1 n)
  show ?case
  proof (cases "n < 10")
    case True
    then show ?thesis
      using 1(2) by (subst showNat.simps) (simp add: digitChar_eq_zero)
  next
    case False
    then have "0 < n div 10" by simp
    then show ?thesis
      using 1(1) False by (subst showNat.simps) (simp add: showNat_not_Nil)
  qed
qed

lemma digitsValue_snoc: "digitsValue (ds @ [c]) = 10 * digitsValue ds + digitValue c"
  by (simp add: digitsValue_def)

lemma digitsValue_showNat: "digitsValue (showNat n) = n"
proof (induction n rule: showNat.induct)
  case (1 n)
  show ?case
  proof (cases "n < 10")
    case True
    then show ?thesis
      by (subst showNat.simps) (simp add: digitsValue_def digitValue_digitChar)
  next
    case False
    then show ?thesis
      using 1 by (subst showNat.simps) (simp add: digitsValue_snoc digitValue_digitChar)
  qed
qed

lemma findIndex_less: "findIndex p xs = Some i \<Longrightarrow> i < length xs"
  by (induction xs arbitrary: i) (auto split: if_splits)

lemma findIndex_holds: "findIndex p xs = Some i \<Longrightarrow> p (xs ! i)"
  by (induction xs arbitrary: i) (auto split: if_splits)

lemma getMonthIndex_less: "getMonthIndex s = Some m \<Longrightarrow> m < 12"
  unfolding getMonthIndex_def by (drule findIndex_less) (simp add: monthNames_def)

lemma DayFromYear_100: "DayFromYear 100 = - 683003"
  by (simp add: DayFromYear_def)

lemma DayFromYear_275760: "DayFromYear 275760 = 99999744"
  by (simp add: DayFromYear_def)

lemma isDigit_not_special:
  assumes "isDigit c"
  shows "\<not> isWhiteSpace c" and "c \<noteq> CHR ''-''" and "c \<noteq> CHR ''+''"
    and "c \<noteq> CHR ''x''" and "c \<noteq> CHR ''X''" and "c \<noteq> CHR ''|''" and "c \<noteq> CHR 0x0A"
  using assms by (auto simp: isDigit_def isWhiteSpace_def Let_def)

lemma take2_digits:
  assumes "\<forall>c \<in> set ds. isDigit c"
  shows "take 2 ds \<noteq> ''0x''" and "take 2 ds \<noteq> ''0X''"
proof -
  have "CHR ''x'' \<notin> set ds" "CHR ''X'' \<notin> set ds"
    using assms isDigit_not_special(4,5) by blast+
  moreover have "set (take 2 ds) \<subseteq> set ds"
    by (rule set_take_subset)
  ultimately show "take 2 ds \<noteq> ''0x''" "take 2 ds \<noteq> ''0X''"
    by auto
qed

lemma parseInt_digits:
  assumes "ds \<noteq> []" and "\<forall>c \<in> set ds. isDigit c"
  shows "parseInt ds = Some (int (digitsValue ds))"
proof -
  obtain c cs where ds: "ds = c # cs"
    using assms(1) by (cases ds) auto
  then have c: "isDigit c"
    using assms(2) by simp
  have 1: "dropWhile isWhiteSpace ds = ds"
    using isDigit_not_special(1) [OF c] by (simp add: ds)
  have 2: "hd ds \<noteq> CHR ''-''" "hd ds \<noteq> CHR ''+''"
    using isDigit_not_special(2,3) [OF c] by (simp_all add: ds)
  have 3: "takeWhile isDigit ds = ds"
    using assms(2) by (simp add: takeWhile_eq_all_conv)
  show ?thesis
    unfolding parseInt_def 1 using 2 take2_digits [OF assms(2)] assms(1)
    by (simp add: Let_def 3)
qed

lemma getDate_digits:
  assumes "getDate s = Some ds"
  shows "ds \<noteq> []" and "\<forall>c \<in> set ds. isDigit c"
proof -
  define rest where "rest = dropWhile (\<lambda>c. \<not> isDigit c) s"
  have r: "rest \<noteq> []" and ds: "ds = takeWhile isDigit rest"
    using assms by (auto simp: getDate_def rest_def Let_def split: if_splits)
  have "isDigit (hd rest)"
    using r hd_dropWhile [of "\<lambda>c. \<not> isDigit c" s] by (simp add: rest_def)
  then show "ds \<noteq> []"
    using r by (cases rest) (simp_all add: ds)
  show "\<forall>c \<in> set ds. isDigit c"
    unfolding ds by (auto dest: set_takeWhileD)
qed

lemma parseInt_getDate:
  "getDate s = Some ds \<Longrightarrow> parseInt (ToString (Some ds)) = Some (int (digitsValue ds))"
  using getDate_digits [of s ds] by (simp add: ToString_def parseInt_digits)

lemma parseInt_undefined: "parseInt (ToString None) = None"
  by code_simp

text \<open>The two forms of the result: of an invalid date, and of a valid one.\<close>

lemma newDate_NaN: "m = None \<or> d = None \<Longrightarrow> newDate z y m d = None"
  by (auto simp: newDate_def MakeDay_def MakeDate_def TimeClip_def split: option.splits)

lemma dateFormatConversion_invalid:
  assumes "newDate z (Some year) (map_option int (getMonthIndex s))
             (parseInt (ToString (getDate s))) = None"
  shows "dateFormatConversion z year s = ''NaN/NaN/NaN''"
  using assms
  by (simp add: dateFormatConversion_def getFullYear_def getMonth_def getDateOfMonth_def
      showNumber_def)

lemma dateFormatConversion_valid:
  assumes "newDate z (Some year) (map_option int (getMonthIndex s))
             (parseInt (ToString (getDate s))) = Some t"
  shows "dateFormatConversion z year s
         = showInt (YearFromTime (LocalTime z t)) @ ''/''
           @ showInt (MonthFromTime (LocalTime z t) + 1) @ ''/''
           @ showInt (DateFromTime (LocalTime z t))"
  using assms
  by (simp add: dateFormatConversion_def getFullYear_def getMonth_def getDateOfMonth_def
      showNumber_def)

text \<open>
  The time value of a local midnight whose day number lies within the years 100 to
  275760, taken to UTC with an offset of at most a day, is inside the range of
  \<open>TimeClip\<close>.
\<close>

lemma TimeClip_in_range:
  assumes "DayFromYear 100 \<le> d" and "d \<le> DayFromYear 275760 + 30" and "\<bar>c\<bar> \<le> msPerDay"
  shows "TimeClip (Some (d * msPerDay - c)) = Some (d * msPerDay - c)"
proof -
  have "- 99999999 \<le> d" "d \<le> 99999999"
    using assms by (simp_all add: DayFromYear_100 DayFromYear_275760)
  then have "- 8639999913600000 \<le> d * msPerDay" "d * msPerDay \<le> 8639999913600000"
    by (simp_all add: msPerDay_def)
  moreover have "- 86400000 \<le> c" "c \<le> 86400000"
    using assms(3) by (simp_all add: msPerDay_def abs_le_iff)
  ultimately have "\<bar>d * msPerDay - c\<bar> \<le> 8640000000000000"
    by (simp add: abs_le_iff)
  then show ?thesis
    by (simp add: TimeClip_def)
qed

text \<open>
  The constructor on a year, a month index and a day that stays within the year or the
  January after it: the local midnight of that day, taken to UTC.
\<close>

lemma newDate_in_year:
  assumes y: "100 \<le> y" "y \<le> 275759" and m: "m < 12"
    and k: "0 \<le> monthStart y (int m) + dt - 1" "monthStart y (int m) + dt - 1 < DaysInYear y + 31"
    and c: "\<bar>offsetAtLocal z (dayNumber y m dt * msPerDay)\<bar> \<le> msPerDay"
  shows "newDate z (Some y) (Some (int m)) (Some dt)
         = Some (UTC z (dayNumber y m dt * msPerDay))"
proof -
  have "DayFromYear 100 \<le> DayFromYear y"
    using y by (simp add: DayFromYear_mono)
  moreover have "DayFromYear (y + 1) \<le> DayFromYear 275760"
    using y by (simp add: DayFromYear_mono)
  ultimately have "TimeClip (Some (UTC z (dayNumber y m dt * msPerDay)))
      = Some (UTC z (dayNumber y m dt * msPerDay))"
    unfolding UTC_def using k c
    by (intro TimeClip_in_range) (simp_all add: DayFromYear_Suc dayNumber_def)
  moreover have "int m div 12 = 0" "int m mod 12 = int m"
    using m by simp_all
  moreover have "DayFromYear y + monthStart y (int m) + dt - 1 = dayNumber y m dt"
    by (simp add: dayNumber_def)
  ultimately show ?thesis
    using y by (simp add: newDate_def MakeFullYear_def MakeDay_def MakeDate_def)
qed

text \<open>
  A zone keeps a day when the offset chosen for its local midnight is the offset in
  force at the resulting time: so does a zone with a constant offset, on every day.
  The zone \<open>Pacific/Apia\<close> does not keep 30 December 2011.
\<close>

lemma keepsDay_consistent:
  assumes "\<bar>offsetAtLocal z (day * msPerDay)\<bar> \<le> msPerDay"
    and "offsetAtUTC z (UTC z (day * msPerDay)) = offsetAtLocal z (day * msPerDay)"
  shows "keepsDay z day"
  using assms by (simp add: keepsDay_def LocalTime_def UTC_def Day_of_days)

lemma keepsDay_fixedZone: "\<bar>c\<bar> \<le> msPerDay \<Longrightarrow> keepsDay (fixedZone c) day"
  by (rule keepsDay_consistent) (simp_all add: fixedZone_def)

lemma keepsDay_utcZone: "keepsDay utcZone day"
  unfolding utcZone_def by (rule keepsDay_fixedZone) (simp add: msPerDay_def)

lemma apiaZone_skips_day: "\<not> keepsDay apiaZone (dayNumber 2011 11 30)"
  by code_simp

lemma showInt_nonneg: "0 \<le> i \<Longrightarrow> showInt i = showNat (nat i)"
  by (simp add: showInt_def)

section \<open>Properties of the write to the text file\<close>

lemma wellFormed_constructor: "wellFormed constructor"
  by (simp add: wellFormed_def constructor_def)

lemma wellFormed_storeArticle: "wellFormed s \<Longrightarrow> wellFormed (storeArticle s a)"
  by (simp add: wellFormed_def storeArticle_def)

lemma wellFormed_scrape: "wellFormed s \<Longrightarrow> wellFormed (scrape data s)"
  unfolding scrape_def by (induction data arbitrary: s) (simp_all add: wellFormed_storeArticle)

lemma scrape_fields:
  "headlines (scrape data s) = headlines s @ map headline data"
  "authors (scrape data s) = authors s @ map author data"
  "dates (scrape data s) = dates s @ map date data"
  "urls (scrape data s) = urls s @ map url data"
  "scraper_id (scrape data s) = scraper_id s"
  unfolding scrape_def by (induction data arbitrary: s) (simp_all add: storeArticle_def)

lemma wellFormed_scraper_id [simp]: "wellFormed (s\<lparr>scraper_id := n\<rparr>) = wellFormed s"
  by (simp add: wellFormed_def)

lemma csvRowsFrom_scraper_id [simp]:
  "csvRowsFrom z year base i (s\<lparr>scraper_id := n\<rparr>) = csvRowsFrom z year base i s"
  by (simp add: csvRowsFrom_def)

lemma csvRowsFrom_end: "length (headlines s) \<le> i \<Longrightarrow> csvRowsFrom z year base i s = []"
  by (simp add: csvRowsFrom_def)

lemma csvRowsFrom_step:
  assumes "i < length (headlines s)"
  shows "csvRowsFrom z year base i s
         = csvLine (base + i + 1) (Some (urls s ! i)) (Some (headlines s ! i))
             (Some (authors s ! i)) (dateFormatConversion z year (dates s ! i))
           @ csvRowsFrom z year base (Suc i) s"
  using assms by (simp add: csvRowsFrom_def upt_conv_Cons)

lemma saveToCsvLoop_wellFormed:
  assumes "wellFormed s" and "fs filename = Some c" and "scraper_id s = base + i"
    and "i \<le> length (headlines s)"
  shows "saveToCsvLoop z year i s fs
         = Inr (s\<lparr>scraper_id := base + length (headlines s)\<rparr>,
                fs(filename \<mapsto> c @ csvRowsFrom z year base i s))"
  using assms
proof (induction "length (headlines s) - i" arbitrary: i s fs c)
  case 0
  then have "length (headlines s) = i"
    by simp
  moreover have "fs(filename \<mapsto> c) = fs"
    using 0(3) by (simp add: fun_upd_idem)
  moreover have "s\<lparr>scraper_id := scraper_id s\<rparr> = s"
    by simp
  ultimately show ?case
    using 0(4) by (subst saveToCsvLoop.simps) (simp add: csvRowsFrom_end)
next
  case (Suc n)
  then have i: "i < length (headlines s)"
    by simp
  define s' where "s' = s\<lparr>scraper_id := scraper_id s + 1\<rparr>"
  define l where "l = csvLine (base + i + 1) (Some (urls s ! i)) (Some (headlines s ! i))
    (Some (authors s ! i)) (dateFormatConversion z year (dates s ! i))"
  have len: "i < length (dates s)" "i < length (urls s)" "i < length (authors s)"
    using i Suc.prems(1) by (simp_all add: wellFormed_def)
  have step: "saveToCsvLoop z year i s fs = saveToCsvLoop z year (Suc i) s' (appendFile filename l fs)"
    using i len Suc.prems(3)
    by (subst saveToCsvLoop.simps) (simp add: elementAt_def Let_def s'_def l_def)
  have "n = length (headlines s') - Suc i" "wellFormed s'"
    "appendFile filename l fs filename = Some (c @ l)" "scraper_id s' = base + Suc i"
    "Suc i \<le> length (headlines s')"
    using Suc.hyps(2) Suc.prems i by (simp_all add: s'_def appendFile_def)
  then have "saveToCsvLoop z year (Suc i) s' (appendFile filename l fs)
        = Inr (s'\<lparr>scraper_id := base + length (headlines s')\<rparr>,
               (appendFile filename l fs)(filename \<mapsto> (c @ l) @ csvRowsFrom z year base (Suc i) s'))"
    by (rule Suc.hyps(1))
  moreover have "s'\<lparr>scraper_id := base + length (headlines s')\<rparr>
      = s\<lparr>scraper_id := base + length (headlines s)\<rparr>"
    by (simp add: s'_def)
  moreover have "(appendFile filename l fs)(filename \<mapsto> (c @ l) @ csvRowsFrom z year base (Suc i) s')
      = fs(filename \<mapsto> c @ csvRowsFrom z year base i s)"
    using csvRowsFrom_step [OF i, of z year base] by (simp add: appendFile_def s'_def l_def)
  ultimately show ?case
    using step by simp
qed

text \<open>
  A write by a well-formed scraper returns; it leaves the header and one line per
  article in the file, whatever the file held, and advances the counter by the number
  of articles.
\<close>

lemma saveToCsv_wellFormed:
  assumes "wellFormed s"
  shows "saveToCsv z year s fs
         = Inr (s\<lparr>scraper_id := scraper_id s + length (headlines s)\<rparr>,
                fs(filename \<mapsto> header @ csvRowsFrom z year (scraper_id s) 0 s))"
  using saveToCsvLoop_wellFormed [OF assms, of "writeFile filename header fs" header "scraper_id s" 0 z year]
  by (simp add: saveToCsv_def writeFile_def)

lemma csvRowsFrom_scrape:
  "csvRowsFrom z year base 0 (scrape data constructor)
   = concat (map (\<lambda>i. csvLine (base + i + 1) (Some (url (data ! i))) (Some (headline (data ! i)))
                         (Some (author (data ! i))) (dateFormatConversion z year (date (data ! i))))
                 [0 ..< length data])"
  unfolding csvRowsFrom_def
  by (rule arg_cong [where f = concat]) (simp add: scrape_fields constructor_def)

section \<open>Properties of the write to the database\<close>

lemma nextRowid_insertRow: "nextRowid (insertRow u h a d t) = nextRowid t + 1"
  by (simp add: nextRowid_def insertRow_def)

lemma nextRowid_append_inserted:
  "nextRowid (t @ map (insertedRow (nextRowid t) s) [0 ..< n]) = nextRowid t + n"
proof (induction n)
  case 0
  show ?case by simp
next
  case (Suc n)
  have "nextRowid (t @ map (insertedRow (nextRowid t) s) [0 ..< Suc n])
      = max (nextRowid (t @ map (insertedRow (nextRowid t) s) [0 ..< n]) - 1) (nextRowid t + n) + 1"
    by (simp add: nextRowid_def insertedRow_def)
  then show ?case
    using Suc by simp
qed

lemma insert_loop:
  "foldl (\<lambda>t i. insertRow (elementAt (urls s) i) (elementAt (headlines s) i)
                   (elementAt (authors s) i) (elementAt (dates s) i) t) t0 [0 ..< n]
   = t0 @ map (insertedRow (nextRowid t0) s) [0 ..< n]"
proof (induction n)
  case 0
  show ?case by simp
next
  case (Suc n)
  define f where "f = (\<lambda>t i. insertRow (elementAt (urls s) i) (elementAt (headlines s) i)
                   (elementAt (authors s) i) (elementAt (dates s) i) t)"
  have "foldl f t0 [0 ..< Suc n] = f (foldl f t0 [0 ..< n]) n"
    by simp
  also have "\<dots> = f (t0 @ map (insertedRow (nextRowid t0) s) [0 ..< n]) n"
    using Suc by (simp only: f_def)
  also have "\<dots> = t0 @ map (insertedRow (nextRowid t0) s) [0 ..< Suc n]"
    using nextRowid_append_inserted [of t0 s n]
    by (simp add: f_def insertRow_def insertedRow_def)
  finally show ?case
    by (simp only: f_def)
qed

text \<open>Every run appends one row per article to the rows the table already has.\<close>

lemma saveToDatabase_rows:
  "saveToDatabase None s db
   = Some (createTableIfNotExists db
           @ map (insertedRow (nextRowid (createTableIfNotExists db)) s)
               [0 ..< length (headlines s)])"
  by (simp add: saveToDatabase_def insert_loop)

lemma insertedRow_scrape:
  "i < length data \<Longrightarrow>
   insertedRow first (scrape data constructor) i
   = \<lparr>col_id = first + i, col_url = Some (url (data ! i)),
      col_headline = Some (headline (data ! i)), col_author = Some (author (data ! i)),
      col_date = Some (date (data ! i))\<rparr>"
  by (simp add: insertedRow_def elementAt_def scrape_fields constructor_def)

lemma saveToDatabase_scrape:
  "saveToDatabase None (scrape data constructor) db
   = Some (createTableIfNotExists db
           @ map (\<lambda>i. \<lparr>col_id = nextRowid (createTableIfNotExists db) + i,
                        col_url = Some (url (data ! i)),
                        col_headline = Some (headline (data ! i)),
                        col_author = Some (author (data ! i)),
                        col_date = Some (date (data ! i))\<rparr>)
               [0 ..< length data])"
proof -
  have "length (headlines (scrape data constructor)) = length data"
    by (simp add: scrape_fields constructor_def)
  then show ?thesis
    by (simp add: saveToDatabase_rows insertedRow_scrape cong: map_cong)
qed

section \<open>The inputs the date conversion leaves unchanged\<close>

lemma toLowerCaseChar_digit: "isDigit c \<Longrightarrow> toLowerCaseChar c = c"
  by (simp add: isDigit_def toLowerCaseChar_def Let_def)

lemma toLowerCaseChar_minus: "toLowerCaseChar (CHR ''-'') = CHR ''-''"
  by (simp add: toLowerCaseChar_def)

lemma monthNames_initials:
  "\<forall>x \<in> set monthNames.
     toLowerCase x \<noteq> [] \<and> \<not> isDigit (hd (toLowerCase x)) \<and> hd (toLowerCase x) \<noteq> CHR ''-''"
  by code_simp

lemma getMonthIndex_initial:
  assumes "getMonthIndex s = Some m"
  shows "s \<noteq> []" and "\<not> isDigit (hd s)" and "hd s \<noteq> CHR ''-''"
proof -
  have "m < length monthNames"
    using assms unfolding getMonthIndex_def by (rule findIndex_less)
  then have x: "monthNames ! m \<in> set monthNames"
    by simp
  have e: "toLowerCase (monthNames ! m) = take 3 (toLowerCase s)"
    using assms unfolding getMonthIndex_def by (rule findIndex_holds)
  note i = monthNames_initials [rule_format, OF x]
  show n: "s \<noteq> []"
    using i e by (auto simp: toLowerCase_def)
  then have h: "hd (toLowerCase (monthNames ! m)) = toLowerCaseChar (hd s)"
    unfolding e by (cases s) (simp_all add: toLowerCase_def)
  show "\<not> isDigit (hd s)"
    using i h toLowerCaseChar_digit [of "hd s"] by auto
  show "hd s \<noteq> CHR ''-''"
    using i h toLowerCaseChar_minus by auto
qed

lemma showInt_initial: "showInt i \<noteq> [] \<and> (hd (showInt i) = CHR ''-'' \<or> isDigit (hd (showInt i)))"
proof (cases "i < 0")
  case True
  then show ?thesis by (simp add: showInt_def)
next
  case False
  moreover have "hd (showNat (nat i)) \<in> set (showNat (nat i))"
    by (simp add: showNat_not_Nil)
  ultimately show ?thesis
    using showNat_digits [of "nat i"] by (simp add: showInt_def showNat_not_Nil)
qed

lemma getMonthIndex_NaN: "getMonthIndex ''NaN/NaN/NaN'' = None"
  by code_simp

text \<open>
  The conversion returns its own input for one string only, the one it returns for
  every input it cannot parse.
\<close>

lemma dateFormatConversion_fixed_point:
  "dateFormatConversion z year s = s \<longleftrightarrow> s = ''NaN/NaN/NaN''"
proof -
  define d where "d = newDate z (Some year) (map_option int (getMonthIndex s))
    (parseInt (ToString (getDate s)))"
  show ?thesis
  proof (cases "getMonthIndex s")
    case None
    then have "d = None"
      unfolding d_def by (intro newDate_NaN) simp
    then have "dateFormatConversion z year s = ''NaN/NaN/NaN''"
      unfolding d_def by (rule dateFormatConversion_invalid)
    then show ?thesis
      by auto
  next
    case (Some m)
    note i = getMonthIndex_initial [OF Some]
    have ne: "s \<noteq> ''NaN/NaN/NaN''"
      using Some getMonthIndex_NaN by auto
    have "dateFormatConversion z year s \<noteq> s"
    proof (cases d)
      case None
      then have "dateFormatConversion z year s = ''NaN/NaN/NaN''"
        unfolding d_def by (rule dateFormatConversion_invalid)
      then show ?thesis
        using ne by simp
    next
      case (Some t)
      then have "dateFormatConversion z year s
          = showInt (YearFromTime (LocalTime z t)) @ ''/'' @ showInt (MonthFromTime (LocalTime z t) + 1) @ ''/''
            @ showInt (DateFromTime (LocalTime z t))"
        unfolding d_def by (rule dateFormatConversion_valid)
      then have "hd (dateFormatConversion z year s) = hd (showInt (YearFromTime (LocalTime z t)))"
        using showInt_initial [of "YearFromTime (LocalTime z t)"] by simp
      then show ?thesis
        using showInt_initial [of "YearFromTime (LocalTime z t)"] i by auto
    qed
    then show ?thesis
      using ne by simp
  qed
qed

text \<open>The two forms of a converted date.\<close>

lemma dateFormatConversion_form:
  "dateFormatConversion z year s = ''NaN/NaN/NaN''
   \<or> (\<exists>y m d. dateFormatConversion z year s = showInt y @ ''/'' @ showInt m @ ''/'' @ showInt d)"
proof (cases "newDate z (Some year) (map_option int (getMonthIndex s)) (parseInt (ToString (getDate s)))")
  case None
  then have "dateFormatConversion z year s = ''NaN/NaN/NaN''"
    by (rule dateFormatConversion_invalid)
  then show ?thesis
    by simp
next
  case (Some t)
  then have "dateFormatConversion z year s
      = showInt (YearFromTime (LocalTime z t)) @ ''/''
        @ showInt (MonthFromTime (LocalTime z t) + 1) @ ''/''
        @ showInt (DateFromTime (LocalTime z t))"
    by (rule dateFormatConversion_valid)
  then show ?thesis
    by blast
qed

section \<open>Properties of the verification\<close>

lemma splitOn_not_Nil: "splitOn c s \<noteq> []"
  by (induction s) (auto split: list.splits)

lemma checkLine_lineOf: "m \<in> set (checkLine i line) \<Longrightarrow> lineOf m = Some (i + 1)"
  by (auto simp: checkLine_def Let_def split: if_splits)

lemma checkDatabase_lineOf: "m \<in> set (checkDatabase db s) \<Longrightarrow> lineOf m = None"
  by (auto simp: checkDatabase_def split: option.splits if_splits)

lemma verify_header_mismatch:
  "trim (splitOn newline csvData ! 0) \<noteq> headerText \<Longrightarrow> verify s csvData db = [HeaderMismatch]"
  by (simp add: verify_def Let_def)

lemma verify_header_ok:
  assumes "trim (splitOn newline csvData ! 0) = headerText"
  shows "set (verify s csvData db)
         = (\<Union>i \<in> set (dataLineIndices (splitOn newline csvData)).
              set (checkLine i (splitOn newline csvData ! i)))
           \<union> set (checkDatabase db s)"
  using assms by (simp add: verify_def Let_def)

lemma line_message_in_verify:
  assumes "trim (splitOn newline csvData ! 0) = headerText"
    and "i \<in> set (dataLineIndices (splitOn newline csvData))"
    and "lineOf m = Some (i + 1)"
  shows "m \<in> set (verify s csvData db) \<longleftrightarrow> m \<in> set (checkLine i (splitOn newline csvData ! i))"
proof
  assume "m \<in> set (verify s csvData db)"
  then consider j where "j \<in> set (dataLineIndices (splitOn newline csvData))"
      "m \<in> set (checkLine j (splitOn newline csvData ! j))"
    | "m \<in> set (checkDatabase db s)"
    unfolding verify_header_ok [OF assms(1)] by blast
  then show "m \<in> set (checkLine i (splitOn newline csvData ! i))"
  proof cases
    case 1
    then have "j = i"
      using checkLine_lineOf [OF 1(2)] assms(3) by simp
    then show ?thesis
      using 1(2) by simp
  next
    case 2
    then show ?thesis
      using checkDatabase_lineOf [OF 2] assms(3) by simp
  qed
next
  assume "m \<in> set (checkLine i (splitOn newline csvData ! i))"
  then show "m \<in> set (verify s csvData db)"
    unfolding verify_header_ok [OF assms(1)] using assms(2) by blast
qed

section \<open>Properties of splitting and trimming\<close>

lemma splitOn_no_separator: "c \<notin> set xs \<Longrightarrow> splitOn c xs = [xs]"
  by (induction xs) auto

lemma splitOn_append_separator:
  "c \<notin> set xs \<Longrightarrow> splitOn c (xs @ c # ys) = xs # splitOn c ys"
  by (induction xs) auto

lemma splitOn_lines:
  assumes "\<forall>l \<in> set ls. c \<notin> set l"
  shows "splitOn c (concat (map (\<lambda>l. l @ [c]) ls)) = ls @ [[]]"
  using assms
proof (induction ls)
  case Nil
  show ?case by simp
next
  case (Cons l ls)
  then have "splitOn c (l @ c # concat (map (\<lambda>l. l @ [c]) ls)) = l # ls @ [[]]"
    by (simp add: splitOn_append_separator)
  then show ?case
    by simp
qed

lemma trim_unchanged:
  assumes "s \<noteq> []" and "\<not> isWhiteSpace (hd s)" and "\<not> isWhiteSpace (last s)"
  shows "trim s = s"
proof -
  have "dropWhile isWhiteSpace s = s"
    using assms(1,2) by (cases s) simp_all
  moreover have "dropWhile isWhiteSpace (rev s) = rev s"
    using assms(1,3) by (cases "rev s") (simp_all add: hd_rev [symmetric])
  ultimately show ?thesis
    by (simp add: trim_def)
qed

lemma trim_padding:
  assumes "\<forall>c \<in> set l. isWhiteSpace c" and "\<forall>c \<in> set r. isWhiteSpace c"
  shows "trim (l @ s @ r) = trim s"
proof -
  have 1: "dropWhile isWhiteSpace (l @ s @ r) = dropWhile isWhiteSpace (s @ r)"
    using assms(1) dropWhile_append2 [of l isWhiteSpace] by simp
  show ?thesis
  proof (cases "\<forall>c \<in> set s. isWhiteSpace c")
    case True
    then have a: "dropWhile isWhiteSpace (s @ r) = []" "dropWhile isWhiteSpace s = []"
      using assms(2) by (auto simp: dropWhile_eq_Nil_conv)
    show ?thesis
      unfolding trim_def 1 a by simp
  next
    case False
    then have 2: "dropWhile isWhiteSpace (s @ r) = dropWhile isWhiteSpace s @ r"
      by (auto simp: dropWhile_append1)
    have "dropWhile isWhiteSpace (rev r @ rev (dropWhile isWhiteSpace s))
        = dropWhile isWhiteSpace (rev (dropWhile isWhiteSpace s))"
      using assms(2) dropWhile_append2 [of "rev r" isWhiteSpace] by simp
    then show ?thesis
      unfolding trim_def 1 2 by simp
  qed
qed

lemma trim_startsWith:
  assumes "startsWith u p" and "p \<noteq> []" and "\<not> isWhiteSpace (hd p)" and "\<not> isWhiteSpace (last p)"
  shows "startsWith (trim u) p"
proof -
  obtain r where u: "u = p @ r"
    using assms(1) unfolding startsWith_def by (metis append_take_drop_id)
  have 1: "dropWhile isWhiteSpace u = u"
    using assms(2,3) by (cases p) (simp_all add: u)
  have p: "dropWhile isWhiteSpace (rev p) = rev p"
    using assms(2,4) by (cases "rev p") (simp_all add: hd_rev [symmetric])
  have "\<exists>r'. dropWhile isWhiteSpace (rev r @ rev p) = r' @ rev p"
  proof (cases "\<forall>c \<in> set (rev r). isWhiteSpace c")
    case True
    then have "dropWhile isWhiteSpace (rev r @ rev p) = [] @ rev p"
      using p dropWhile_append2 [of "rev r" isWhiteSpace "rev p"] by simp
    then show ?thesis
      by blast
  next
    case False
    then have "dropWhile isWhiteSpace (rev r @ rev p) = dropWhile isWhiteSpace (rev r) @ rev p"
      by (auto simp: dropWhile_append1)
    then show ?thesis
      by blast
  qed
  then obtain r' where "dropWhile isWhiteSpace (rev u) = r' @ rev p"
    by (auto simp: u)
  then have "trim u = p @ rev r'"
    by (simp add: trim_def 1)
  then show ?thesis
    by (simp add: startsWith_def)
qed

lemma dateChar_plain:
  assumes "dateChar c"
  shows "\<not> isWhiteSpace c" and "c \<noteq> CHR ''|''" and "c \<noteq> newline"
  using assms by (auto simp: dateChar_def isDigit_def isWhiteSpace_def newline_def Let_def)

lemma showInt_dateChars: "\<forall>c \<in> set (showInt i). dateChar c"
  using showNat_digits by (auto simp: showInt_def dateChar_def)

lemma showInt_not_Nil: "showInt i \<noteq> []"
  by (simp add: showInt_def showNat_not_Nil)

lemma dateFormatConversion_dateChars:
  "dateFormatConversion z year s \<noteq> [] \<and> (\<forall>c \<in> set (dateFormatConversion z year s). dateChar c)"
proof (cases "newDate z (Some year) (map_option int (getMonthIndex s)) (parseInt (ToString (getDate s)))")
  case None
  then have "dateFormatConversion z year s = ''NaN/NaN/NaN''"
    by (rule dateFormatConversion_invalid)
  then show ?thesis
    by (simp add: dateChar_def)
next
  case (Some t)
  then have "dateFormatConversion z year s
      = showInt (YearFromTime (LocalTime z t)) @ ''/'' @ showInt (MonthFromTime (LocalTime z t) + 1) @ ''/''
        @ showInt (DateFromTime (LocalTime z t))"
    by (rule dateFormatConversion_valid)
  then show ?thesis
    using showInt_dateChars showInt_not_Nil by (auto simp: dateChar_def)
qed

lemma digit_plain:
  assumes "isDigit c"
  shows "\<not> isWhiteSpace c" and "c \<noteq> CHR ''|''" and "c \<noteq> newline"
  using assms by (auto simp: isDigit_def isWhiteSpace_def newline_def Let_def)

lemma space_isWhiteSpace: "isWhiteSpace (CHR '' '')"
  by (simp add: isWhiteSpace_def)

lemma dquote_plain: "\<not> isWhiteSpace dquote" "dquote \<noteq> CHR ''|''" "dquote \<noteq> newline"
  by (simp_all add: dquote_def isWhiteSpace_def newline_def)

lemma csvLine_csvText: "csvLine n (Some u) (Some h) (Some a) d = csvText n u h a d @ [newline]"
  by (simp add: csvLine_def csvText_def ToString_def)

lemma plain_ends:
  assumes "s \<noteq> []" and "\<forall>c \<in> set s. \<not> isWhiteSpace c"
  shows "\<not> isWhiteSpace (hd s)" and "\<not> isWhiteSpace (last s)"
  using assms by (simp_all add: hd_in_set last_in_set)

lemma csvFields_csvText:
  assumes "CHR ''|'' \<notin> set u" and "CHR ''|'' \<notin> set h" and "CHR ''|'' \<notin> set a"
    and "d \<noteq> []" and "\<forall>c \<in> set d. dateChar c"
  shows "csvFields (csvText n u h a d) = [showNat n, trim u, [dquote] @ h @ [dquote], trim a, d]"
proof -
  note nd = showNat_digits [of n] showNat_not_Nil [of n]
  have dp: "\<forall>c \<in> set d. \<not> isWhiteSpace c" "CHR ''|'' \<notin> set d"
    using assms(5) dateChar_plain by blast+
  have np: "\<forall>c \<in> set (showNat n). \<not> isWhiteSpace c" "CHR ''|'' \<notin> set (showNat n)"
    using nd(1) digit_plain by blast+
  have "hd (csvText n u h a d) = hd (showNat n)" "last (csvText n u h a d) = last d"
    using nd(2) assms(4) by (simp_all add: csvText_def)
  then have "\<not> isWhiteSpace (hd (csvText n u h a d))" "\<not> isWhiteSpace (last (csvText n u h a d))"
    using plain_ends [OF nd(2) np(1)] plain_ends [OF assms(4) dp(1)] by simp_all
  moreover have "csvText n u h a d \<noteq> []"
    using nd(2) by (simp add: csvText_def)
  ultimately have t: "trim (csvText n u h a d) = csvText n u h a d"
    by (intro trim_unchanged)
  have "csvText n u h a d
      = (showNat n @ '' '') @ CHR ''|'' # ('' '' @ u @ '' '') @ CHR ''|''
        # ('' '' @ ([dquote] @ h @ [dquote]) @ '' '') @ CHR ''|'' # ('' '' @ a @ '' '')
        @ CHR ''|'' # ('' '' @ d @ [])"
    by (simp add: csvText_def)
  moreover have "CHR ''|'' \<notin> set (showNat n @ '' '')" "CHR ''|'' \<notin> set ('' '' @ u @ '' '')"
    "CHR ''|'' \<notin> set ('' '' @ ([dquote] @ h @ [dquote]) @ '' '')"
    "CHR ''|'' \<notin> set ('' '' @ a @ '' '')" "CHR ''|'' \<notin> set ('' '' @ d @ [])"
    using assms(1-3) dp(2) np(2) dquote_plain(2) by auto
  ultimately have s: "splitOn (CHR ''|'') (csvText n u h a d)
      = [showNat n @ '' '', '' '' @ u @ '' '', '' '' @ ([dquote] @ h @ [dquote]) @ '' '',
         '' '' @ a @ '' '', '' '' @ d @ []]"
    by (simp only: splitOn_append_separator splitOn_no_separator not_False_eq_True)
  have w: "\<forall>c \<in> set '' ''. isWhiteSpace c" "\<forall>c \<in> set ([] :: string). isWhiteSpace c"
    by (simp_all add: space_isWhiteSpace)
  have 1: "trim (showNat n @ '' '') = showNat n"
    using trim_padding [OF w(2) w(1), of "showNat n"]
      trim_unchanged [OF nd(2) plain_ends [OF nd(2) np(1)]] by simp
  have 2: "trim ('' '' @ u @ '' '') = trim u" "trim ('' '' @ a @ '' '') = trim a"
    using w(1) by (intro trim_padding; assumption)+
  have "trim ([dquote] @ h @ [dquote]) = [dquote] @ h @ [dquote]"
    using dquote_plain(1) by (intro trim_unchanged) simp_all
  then have 3: "trim ('' '' @ ([dquote] @ h @ [dquote]) @ '' '') = [dquote] @ h @ [dquote]"
    using trim_padding [OF w(1) w(1), of "[dquote] @ h @ [dquote]"] by simp
  have 4: "trim ('' '' @ d @ []) = d"
    using trim_padding [OF w(1) w(2), of d]
      trim_unchanged [OF assms(4) plain_ends [OF assms(4) dp(1)]] by simp
  show ?thesis
    unfolding csvFields_def t s by (simp only: list.map 1 2 3 4)
qed

section \<open>Reading the text file back\<close>

lemma inner_lines:
  "map (\<lambda>i. (h # bs @ [e]) ! i) (dataLineIndices (h # bs @ [e])) = bs"
proof -
  have "dataLineIndices (h # bs @ [e]) = map Suc [0 ..< length bs]"
    by (simp add: dataLineIndices_def map_Suc_upt)
  then have "map (\<lambda>i. (h # bs @ [e]) ! i) (dataLineIndices (h # bs @ [e]))
      = map (\<lambda>i. (bs @ [e]) ! i) [0 ..< length bs]"
    by simp
  also have "\<dots> = map (\<lambda>i. bs ! i) [0 ..< length bs]"
    by (rule map_cong) (simp_all add: nth_append)
  also have "\<dots> = bs"
    by (rule map_nth)
  finally show ?thesis .
qed

lemma newline_not_in_headerText: "newline \<notin> set headerText"
  by code_simp

lemma trim_headerText: "trim headerText = headerText"
  by code_simp

lemma parsedRows_of_lines:
  assumes "\<forall>l \<in> set bs. newline \<notin> set l"
  shows "splitOn newline (header @ concat (map (\<lambda>l. l @ [newline]) bs)) = headerText # bs @ [[]]"
    and "parsedRows (header @ concat (map (\<lambda>l. l @ [newline]) bs)) = map csvFields bs"
proof -
  have "header @ concat (map (\<lambda>l. l @ [newline]) bs)
      = concat (map (\<lambda>l. l @ [newline]) (headerText # bs))"
    by (simp add: header_def)
  moreover have "\<forall>l \<in> set (headerText # bs). newline \<notin> set l"
    using assms newline_not_in_headerText by simp
  ultimately show s: "splitOn newline (header @ concat (map (\<lambda>l. l @ [newline]) bs))
      = headerText # bs @ [[]]"
    using splitOn_lines [of "headerText # bs" newline] by simp
  have "map (\<lambda>i. csvFields ((headerText # bs @ [[]]) ! i)) (dataLineIndices (headerText # bs @ [[]]))
      = map csvFields (map (\<lambda>i. (headerText # bs @ [[]]) ! i) (dataLineIndices (headerText # bs @ [[]])))"
    by simp
  then show "parsedRows (header @ concat (map (\<lambda>l. l @ [newline]) bs)) = map csvFields bs"
    unfolding parsedRows_def s Let_def by (simp only: inner_lines)
qed

lemma verify_of_lines:
  assumes "\<forall>l \<in> set bs. newline \<notin> set l" and "\<forall>i < length bs. checkLine (Suc i) (bs ! i) = []"
  shows "verify s (header @ concat (map (\<lambda>l. l @ [newline]) bs)) db = checkDatabase db s"
proof -
  note sp = parsedRows_of_lines(1) [OF assms(1)]
  have "dataLineIndices (headerText # bs @ [[]]) = map Suc [0 ..< length bs]"
    by (simp add: dataLineIndices_def map_Suc_upt)
  then have "concat (map (\<lambda>i. checkLine i ((headerText # bs @ [[]]) ! i))
      (dataLineIndices (headerText # bs @ [[]]))) = []"
    using assms(2) by (simp add: nth_append)
  then show ?thesis
    unfolding verify_def sp Let_def by (simp add: trim_headerText)
qed

lemma newline_not_in_csvText:
  assumes "newline \<notin> set u" and "newline \<notin> set h" and "newline \<notin> set a"
    and "\<forall>c \<in> set d. dateChar c"
  shows "newline \<notin> set (csvText n u h a d)"
proof -
  have "newline \<notin> set (showNat n)" "newline \<notin> set d"
    using showNat_digits [of n] digit_plain(3) assms(4) dateChar_plain(3) by blast+
  moreover have "newline \<noteq> CHR '' ''" "newline \<noteq> CHR ''|''" "newline \<noteq> dquote"
    by (simp_all add: newline_def dquote_def)
  ultimately show ?thesis
    using assms(1-3) by (simp add: csvText_def)
qed

lemma http_ends: "''http'' \<noteq> []" "\<not> isWhiteSpace (hd ''http'')" "\<not> isWhiteSpace (last ''http'')"
  by (simp_all add: isWhiteSpace_def)

lemma startsWith_not_Nil: "startsWith s p \<Longrightarrow> p \<noteq> [] \<Longrightarrow> s \<noteq> []"
  by (auto simp: startsWith_def)

lemma parseInt_showNat: "parseInt (showNat n) = Some (int n)"
  using parseInt_digits [OF showNat_not_Nil showNat_digits, of n] by (simp add: digitsValue_showNat)

text \<open>The fields read back from the line of a clean article, and what the checks say.\<close>

lemma clean_line:
  fixes n :: nat and year :: int and z :: zone
  assumes "cleanArticle a"
  defines "l \<equiv> csvText n (url a) (headline a) (author a) (dateFormatConversion z year (date a))"
  shows "newline \<notin> set l"
    and "csvFields l = [showNat n, trim (url a), [dquote] @ headline a @ [dquote],
                        trim (author a), dateFormatConversion z year (date a)]"
    and "checkLine i l = []"
proof -
  note d = dateFormatConversion_dateChars [of z year "date a"]
  have c: "CHR ''|'' \<notin> set (url a)" "CHR ''|'' \<notin> set (headline a)" "CHR ''|'' \<notin> set (author a)"
    "newline \<notin> set (url a)" "newline \<notin> set (headline a)" "newline \<notin> set (author a)"
    using assms(1) by (auto simp: cleanArticle_def)
  show "newline \<notin> set l"
    unfolding l_def using c(4-6) d by (intro newline_not_in_csvText) simp_all
  show f: "csvFields l = [showNat n, trim (url a), [dquote] @ headline a @ [dquote],
                        trim (author a), dateFormatConversion z year (date a)]"
    unfolding l_def using c(1-3) d by (intro csvFields_csvText) simp_all
  have "startsWith (trim (url a)) ''http''"
    using assms(1) http_ends by (intro trim_startsWith) (simp_all add: cleanArticle_def)
  moreover have "trim (author a) \<noteq> []"
    using assms(1) by (simp add: cleanArticle_def)
  ultimately show "checkLine i l = []"
    using d by (simp add: checkLine_def f parseInt_showNat)
qed

section \<open>The date conversion on valid dates\<close>

text \<open>
  The claim C2 as stated fails: the constructor reads the day as a local date, and a
  zone can skip a day. In the zone \<open>Pacific/Apia\<close> with the reference year 2011, the
  input \<open>Dec 30\<close> has a month name in front and a day within December, and the
  conversion returns the 31st: the local midnight of 30 December 2011 does not exist
  there, and the time value of the date is the first instant of 31 December.
\<close>

theorem dateFormatConversion_valid_date_counterexample:
  "getMonthIndex ''Dec 30'' = Some 11
   \<and> getDate ''Dec 30'' = Some ''30''
   \<and> 1 \<le> digitsValue ''30''
   \<and> int (digitsValue ''30'') \<le> daysInMonth 2011 11
   \<and> dateFormatConversion apiaZone 2011 ''Dec 30'' = ''2011/12/31''"
  by code_simp

text \<open>
  Claim C2, amended. For a reference year from 100 to 275759 (the year is read from the
  clock, and the constructor reads a year from 0 to 99 as 1900 plus that year), an
  input whose first three characters are a month name, in any case, and whose first run
  of digits is a day from 1 to the length of that month in the reference year, in a
  time zone that keeps that day (its local midnight, taken to UTC and back, is a time
  of the same day, as in every zone with a constant offset): the result is the year,
  the month number and the day in decimal, joined by \<open>/\<close>, and neither the month nor
  the day starts with a zero.
\<close>

theorem dateFormatConversion_valid_date:
  assumes "100 \<le> year" and "year \<le> 275759"
    and "getMonthIndex input = Some m"
    and "getDate input = Some ds"
    and "1 \<le> digitsValue ds"
    and "int (digitsValue ds) \<le> daysInMonth year m"
    and "keepsDay z (dayNumber year m (int (digitsValue ds)))"
  shows "dateFormatConversion z year input
           = showNat (nat year) @ ''/'' @ showNat (m + 1) @ ''/'' @ showNat (digitsValue ds)
         \<and> hd (showNat (m + 1)) \<noteq> CHR ''0''
         \<and> hd (showNat (digitsValue ds)) \<noteq> CHR ''0''"
proof -
  define d where "d = int (digitsValue ds)"
  define k where "k = monthStart year (int m) + d - 1"
  define t where "t = LocalTime z (UTC z (dayNumber year m d * msPerDay))"
  have m: "m < 12"
    using assms(3) by (rule getMonthIndex_less)
  have d: "1 \<le> d" "d \<le> daysInMonth year m"
    using assms(5,6) by (simp_all add: d_def)
  have k: "monthStart year (int m) \<le> k" "k < monthStart year (int m) + daysInMonth year m"
    using d by (simp_all add: k_def)
  have z: "\<bar>offsetAtLocal z (dayNumber year m d * msPerDay)\<bar> \<le> msPerDay"
    and "Day t = dayNumber year m d"
    using assms(7) by (simp_all add: keepsDay_def d_def t_def)
  then have "Day t = DayFromYear year + k"
    by (simp add: dayNumber_def k_def)
  note f = month_fields [OF m k this]
  have "0 \<le> monthStart year (int m)"
    using leapDay_range [of year] by (cases rule: month_index_cases [OF m]) (simp_all add: monthStart_def)
  moreover have "monthStart year (int m) + daysInMonth year m \<le> DaysInYear year"
    using leapDay_range [of year]
    by (cases rule: month_index_cases [OF m]) (simp_all add: monthStart_def daysInMonth_def DaysInYear_leapDay)
  ultimately have "0 \<le> k" "k < DaysInYear year + 31"
    using k by simp_all
  then have "newDate z (Some year) (Some (int m)) (Some d)
      = Some (UTC z (dayNumber year m d * msPerDay))"
    unfolding k_def using assms(1,2) m z by (intro newDate_in_year)
  then have "newDate z (Some year) (map_option int (getMonthIndex input))
      (parseInt (ToString (getDate input))) = Some (UTC z (dayNumber year m d * msPerDay))"
    by (simp add: assms(3,4) parseInt_getDate [OF assms(4)] d_def)
  then have "dateFormatConversion z year input
      = showInt (YearFromTime t) @ ''/'' @ showInt (MonthFromTime t + 1) @ ''/''
        @ showInt (DateFromTime t)"
    unfolding t_def by (rule dateFormatConversion_valid)
  then have "dateFormatConversion z year input
      = showInt year @ ''/'' @ showInt (int m + 1) @ ''/'' @ showInt d"
    by (simp add: f k_def)
  moreover have "showInt year = showNat (nat year)"
    using assms(1) by (simp add: showInt_nonneg)
  moreover have "showInt (int m + 1) = showNat (m + 1)"
    by (simp add: showInt_def nat_add_distrib)
  moreover have "showInt d = showNat (digitsValue ds)"
    by (simp add: showInt_def d_def)
  ultimately show ?thesis
    using assms(5) by (simp add: showNat_no_leading_zero)
qed

text \<open>
  The two examples of the claim, obtained from the theorem: one in UTC, one in the
  zone of India.
\<close>

theorem dateFormatConversion_valid_date_witness:
  "dateFormatConversion utcZone 2024 ''Mar 14'' = ''2024/3/14''
   \<and> dateFormatConversion indiaZone 2025 ''january 1'' = ''2025/1/1''"
proof -
  have a: "getMonthIndex ''Mar 14'' = Some 2" "getDate ''Mar 14'' = Some ''14''"
    "1 \<le> digitsValue ''14''" "int (digitsValue ''14'') \<le> daysInMonth 2024 2"
    "keepsDay utcZone (dayNumber 2024 2 (int (digitsValue ''14'')))"
    by code_simp+
  have b: "getMonthIndex ''january 1'' = Some 0" "getDate ''january 1'' = Some ''1''"
    "1 \<le> digitsValue ''1''" "int (digitsValue ''1'') \<le> daysInMonth 2025 0"
    "keepsDay indiaZone (dayNumber 2025 0 (int (digitsValue ''1'')))"
    by code_simp+
  have c: "showNat (nat 2024) @ ''/'' @ showNat (2 + 1) @ ''/'' @ showNat (digitsValue ''14'')
      = ''2024/3/14''"
    "showNat (nat 2025) @ ''/'' @ showNat (0 + 1) @ ''/'' @ showNat (digitsValue ''1'')
      = ''2025/1/1''"
    by code_simp+
  show ?thesis
    using dateFormatConversion_valid_date [OF _ _ a]
      dateFormatConversion_valid_date [OF _ _ b] c by simp
qed

section \<open>The date conversion on unparseable input\<close>

text \<open>
  The claim C3 as stated fails: \<open>no date here\<close> has neither a month name in front nor a
  digit, and the conversion returns a string for it. The function has no statement that
  throws; the \<open>undefined\<close> of its helpers becomes \<open>NaN\<close> in the date, and each field
  of an invalid date prints as \<open>NaN\<close>.
\<close>

theorem dateFormatConversion_unparseable_counterexample:
  "getMonthIndex ''no date here'' = None
   \<and> getDate ''no date here'' = None
   \<and> dateFormatConversion utcZone 2024 ''no date here'' = ''NaN/NaN/NaN''"
  by code_simp

text \<open>
  Claim C3, amended. For every input with no digit, or whose first three characters,
  lower-cased, are none of the twelve month names (so also every input with no month
  name anywhere), the conversion does not fail: it returns the string \<open>NaN/NaN/NaN\<close>,
  whatever the year and the time zone.
\<close>

theorem dateFormatConversion_unparseable:
  assumes "getMonthIndex input = None \<or> getDate input = None"
  shows "dateFormatConversion z year input = ''NaN/NaN/NaN''"
proof -
  have "map_option int (getMonthIndex input) = None \<or> parseInt (ToString (getDate input)) = None"
    using assms parseInt_undefined by auto
  then have "newDate z (Some year) (map_option int (getMonthIndex input))
      (parseInt (ToString (getDate input))) = None"
    by (rule newDate_NaN)
  then show ?thesis
    by (rule dateFormatConversion_invalid)
qed

text \<open>The theorem on an input with no digit, and on one whose month comes second.\<close>

theorem dateFormatConversion_unparseable_witness:
  "getDate ''March'' = None \<and> dateFormatConversion utcZone 2025 ''March'' = ''NaN/NaN/NaN''
   \<and> getMonthIndex ''14 Mar'' = None \<and> dateFormatConversion utcZone 2025 ''14 Mar'' = ''NaN/NaN/NaN''"
proof -
  have a: "getDate ''March'' = None" and b: "getMonthIndex ''14 Mar'' = None"
    by code_simp+
  show ?thesis
    using dateFormatConversion_unparseable [where input = "''March''" and z = utcZone and year = 2025]
      dateFormatConversion_unparseable [where input = "''14 Mar''" and z = utcZone and year = 2025] a b
    by simp
qed

section \<open>The date conversion on a day beyond the end of the month\<close>

text \<open>
  The claim C6 as stated fails: day 61 is beyond the end of January 2024, and the result
  is a day of March, not of February, the following month.
\<close>

theorem dateFormatConversion_rollover_counterexample:
  "getMonthIndex ''Jan 61'' = Some 0
   \<and> getDate ''Jan 61'' = Some ''61''
   \<and> daysInMonth 2024 0 < int (digitsValue ''61'')
   \<and> dateFormatConversion utcZone 2024 ''Jan 61'' = ''2024/3/1''"
  by code_simp

text \<open>
  Claim C6, amended. For a reference year from 100 to 275759, when the day exceeds the
  length of the matched month by no more than the length of the following month, in a
  time zone that keeps the day reached by counting on from the first of the matched
  month (its local midnight, taken to UTC and back, is a time of the same day, as in
  every zone with a constant offset), the conversion does not fail and returns the
  following month (January of the next year after December) with the excess as the
  day.
\<close>

theorem dateFormatConversion_rollover:
  assumes "100 \<le> year" and "year \<le> 275759"
    and "getMonthIndex input = Some m"
    and "getDate input = Some ds"
    and "nextMonth year m = (y', m')"
    and "daysInMonth year m < int (digitsValue ds)"
    and "int (digitsValue ds) \<le> daysInMonth year m + daysInMonth y' m'"
    and "keepsDay z (dayNumber year m (int (digitsValue ds)))"
  shows "dateFormatConversion z year input
           = showNat (nat y') @ ''/'' @ showNat (m' + 1) @ ''/''
             @ showNat (nat (int (digitsValue ds) - daysInMonth year m))"
proof -
  define d where "d = int (digitsValue ds)"
  define k where "k = monthStart year (int m) + d - 1"
  define t where "t = LocalTime z (UTC z (dayNumber year m d * msPerDay))"
  have m: "m < 12"
    using assms(3) by (rule getMonthIndex_less)
  have z: "\<bar>offsetAtLocal z (dayNumber year m d * msPerDay)\<bar> \<le> msPerDay"
    and "Day t = dayNumber year m d"
    using assms(8) by (simp_all add: keepsDay_def d_def t_def)
  then have t: "Day t = DayFromYear year + k"
    by (simp add: dayNumber_def k_def)
  have d: "daysInMonth year m < d" "d \<le> daysInMonth year m + daysInMonth y' m'"
    using assms(6,7) by (simp_all add: d_def)
  have dim: "28 \<le> daysInMonth year m" "daysInMonth y' m' \<le> 31"
    using leapDay_range [of year] leapDay_range [of y'] by (simp_all add: daysInMonth_def)
  have ms0: "0 \<le> monthStart year (int m)"
    using leapDay_range [of year]
    by (cases rule: month_index_cases [OF m]) (simp_all add: monthStart_def)
  have ms1: "monthStart year (int m) + daysInMonth year m \<le> DaysInYear year"
    using leapDay_range [of year]
    by (cases rule: month_index_cases [OF m])
      (simp_all add: monthStart_def daysInMonth_def DaysInYear_leapDay)
  have "0 \<le> k" "k < DaysInYear year + 31"
    using ms0 ms1 d dim by (simp_all add: k_def)
  then have "newDate z (Some year) (Some (int m)) (Some d)
      = Some (UTC z (dayNumber year m d * msPerDay))"
    unfolding k_def using assms(1,2) m z by (intro newDate_in_year)
  then have "newDate z (Some year) (map_option int (getMonthIndex input))
      (parseInt (ToString (getDate input))) = Some (UTC z (dayNumber year m d * msPerDay))"
    by (simp add: assms(3,4) parseInt_getDate [OF assms(4)] d_def)
  then have c: "dateFormatConversion z year input
      = showInt (YearFromTime t) @ ''/'' @ showInt (MonthFromTime t + 1) @ ''/''
        @ showInt (DateFromTime t)"
    unfolding t_def by (rule dateFormatConversion_valid)
  have f: "YearFromTime t = y' \<and> MonthFromTime t = int m'
      \<and> DateFromTime t = d - daysInMonth year m"
  proof (cases "m = 11")
    case True
    then have n: "y' = year + 1" "m' = 0"
      using assms(5) by (simp_all add: nextMonth_def)
    have t': "Day t = DayFromYear (year + 1) + (k - DaysInYear year)"
      by (simp add: t DayFromYear_Suc)
    have *: "k - DaysInYear year = d - 32"
      using monthStart_december [of year] True by (simp add: k_def)
    have "monthStart (year + 1) (int 0) \<le> k - DaysInYear year"
      "k - DaysInYear year < monthStart (year + 1) (int 0) + daysInMonth (year + 1) 0"
      using d True n by (simp_all add: * monthStart_def daysInMonth_def)
    from month_fields [OF _ this t'] show ?thesis
      using True by (simp add: n * monthStart_def daysInMonth_def)
  next
    case False
    then have n: "y' = year" "m' = m + 1" and m11: "m < 11"
      using assms(5) m by (simp_all add: nextMonth_def)
    have ms: "monthStart year (int (Suc m)) = monthStart year (int m) + daysInMonth year m"
      using monthStart_next [OF m11, of year] by (simp add: add.commute)
    have "Suc m < 12"
      using m11 by simp
    moreover have "monthStart year (int (Suc m)) \<le> k"
      "k < monthStart year (int (Suc m)) + daysInMonth year (Suc m)"
      using d n unfolding ms by (simp_all add: k_def)
    ultimately have "YearFromTime t = year" "MonthFromTime t = int (Suc m)"
      "DateFromTime t = k - monthStart year (int (Suc m)) + 1"
      using t by (rule month_fields)+
    then show ?thesis
      unfolding ms by (simp add: n k_def)
  qed
  have "dateFormatConversion z year input
      = showInt y' @ ''/'' @ showInt (int m' + 1) @ ''/'' @ showInt (d - daysInMonth year m)"
    using f by (simp add: c)
  moreover have "0 \<le> y'"
    using assms(1,5) by (auto simp: nextMonth_def split: if_splits)
  then have "showInt y' = showNat (nat y')"
    by (simp add: showInt_nonneg)
  moreover have "showInt (int m' + 1) = showNat (m' + 1)"
    by (simp add: showInt_def nat_add_distrib)
  moreover have "showInt (d - daysInMonth year m) = showNat (nat (d - daysInMonth year m))"
    using d by (simp add: showInt_nonneg)
  ultimately show ?thesis
    by (simp add: d_def)
qed

text \<open>
  The theorem on the examples of the claim, day 30 in February and day 31 in a month
  of 30 days, and on the last month of a year, in UTC and in the zone of India.
\<close>

theorem dateFormatConversion_rollover_witness:
  "dateFormatConversion utcZone 2025 ''Feb 30'' = ''2025/3/2''
   \<and> dateFormatConversion indiaZone 2024 ''Apr 31'' = ''2024/5/1''
   \<and> dateFormatConversion utcZone 2024 ''Dec 32'' = ''2025/1/1''"
proof -
  have a: "getMonthIndex ''Feb 30'' = Some 1" "getDate ''Feb 30'' = Some ''30''"
    "nextMonth 2025 1 = (2025, 2)"
    "daysInMonth 2025 1 < int (digitsValue ''30'')"
    "int (digitsValue ''30'') \<le> daysInMonth 2025 1 + daysInMonth 2025 2"
    "keepsDay utcZone (dayNumber 2025 1 (int (digitsValue ''30'')))"
    by code_simp+
  have b: "getMonthIndex ''Apr 31'' = Some 3" "getDate ''Apr 31'' = Some ''31''"
    "nextMonth 2024 3 = (2024, 4)"
    "daysInMonth 2024 3 < int (digitsValue ''31'')"
    "int (digitsValue ''31'') \<le> daysInMonth 2024 3 + daysInMonth 2024 4"
    "keepsDay indiaZone (dayNumber 2024 3 (int (digitsValue ''31'')))"
    by code_simp+
  have c: "getMonthIndex ''Dec 32'' = Some 11" "getDate ''Dec 32'' = Some ''32''"
    "nextMonth 2024 11 = (2025, 0)"
    "daysInMonth 2024 11 < int (digitsValue ''32'')"
    "int (digitsValue ''32'') \<le> daysInMonth 2024 11 + daysInMonth 2025 0"
    "keepsDay utcZone (dayNumber 2024 11 (int (digitsValue ''32'')))"
    by code_simp+
  have r: "showNat (nat 2025) @ ''/'' @ showNat (2 + 1) @ ''/''
             @ showNat (nat (int (digitsValue ''30'') - daysInMonth 2025 1)) = ''2025/3/2''"
    "showNat (nat 2024) @ ''/'' @ showNat (4 + 1) @ ''/''
             @ showNat (nat (int (digitsValue ''31'') - daysInMonth 2024 3)) = ''2024/5/1''"
    "showNat (nat 2025) @ ''/'' @ showNat (0 + 1) @ ''/''
             @ showNat (nat (int (digitsValue ''32'') - daysInMonth 2024 11)) = ''2025/1/1''"
    by code_simp+
  show ?thesis
    using dateFormatConversion_rollover [OF _ _ a] dateFormatConversion_rollover [OF _ _ b]
      dateFormatConversion_rollover [OF _ _ c] r
    by simp
qed

section \<open>The content of the text file\<close>

text \<open>
  Claim C5. A write by a scraper that has just been constructed and has scraped \<open>data\<close>
  returns, and leaves in the file exactly the header line followed by one line per
  article in the order of \<open>data\<close>: the article at position \<open>i + 1\<close> has the number
  \<open>i + 1\<close>, the fields are joined by \<open> | \<close>, and only the headline is in double
  quotes.
\<close>

theorem saveToCsv_fresh:
  "saveToCsv z year (scrape data constructor) fs
   = Inr ((scrape data constructor)\<lparr>scraper_id := length data\<rparr>,
          fs(filename \<mapsto>
             ''id | URL | headline | author | date'' @ [newline]
             @ concat (map (\<lambda>i. showNat (i + 1) @ '' | '' @ url (data ! i) @ '' | ''
                                 @ [dquote] @ headline (data ! i) @ [dquote] @ '' | ''
                                 @ author (data ! i) @ '' | ''
                                 @ dateFormatConversion z year (date (data ! i)) @ [newline])
                           [0 ..< length data])))"
proof -
  have "wellFormed (scrape data constructor)"
    by (simp add: wellFormed_scrape wellFormed_constructor)
  moreover have "scraper_id (scrape data constructor) = 0"
    "length (headlines (scrape data constructor)) = length data"
    by (simp_all add: scrape_fields constructor_def)
  ultimately have "saveToCsv z year (scrape data constructor) fs
      = Inr ((scrape data constructor)\<lparr>scraper_id := length data\<rparr>,
             fs(filename \<mapsto> header @ csvRowsFrom z year 0 0 (scrape data constructor)))"
    using saveToCsv_wellFormed [of "scrape data constructor" z year fs] by simp
  then show ?thesis
    by (simp add: csvRowsFrom_scrape header_def headerText_def csvLine_def ToString_def)
qed

text \<open>The theorem on two articles.\<close>

theorem saveToCsv_fresh_witness:
  "saveToCsv utcZone 2024 (scrape [articleA, articleB] constructor) Map.empty
   = Inr ((scrape [articleA, articleB] constructor)\<lparr>scraper_id := 2\<rparr>,
          [filename \<mapsto>
             ''id | URL | headline | author | date'' @ [newline]
             @ ''1 | https://x/1 | '' @ [dquote] @ ''A'' @ [dquote] @ '' | Bob | 2024/1/5'' @ [newline]
             @ ''2 | https://x/2 | '' @ [dquote] @ ''B'' @ [dquote] @ '' | Eve | 2024/3/14'' @ [newline]])"
proof -
  have "showNat (Suc 0) = ''1''" "showNat (Suc (Suc 0)) = ''2''"
    "dateFormatConversion utcZone 2024 ''Jan 5'' = ''2024/1/5''"
    "dateFormatConversion utcZone 2024 ''Mar 14'' = ''2024/3/14''"
    by code_simp+
  moreover have "[0 ..< Suc (Suc 0)] = [0, Suc 0]"
    by (simp add: upt_conv_Cons)
  ultimately show ?thesis
    using saveToCsv_fresh [where z = utcZone and year = 2024 and data = "[articleA, articleB]"
        and fs = Map.empty]
    by (simp add: articleA_def articleB_def)
qed

text \<open>
  Claim C7. Two consecutive writes, by any two well-formed scrapers (the same instance
  later, or the instance of another run), on any files: both return; after the second
  the file holds the header once, followed by the lines of the second write only,
  exactly what the second write alone leaves in a file system without the file.
\<close>

theorem saveToCsv_overwrites:
  assumes "wellFormed s1" and "wellFormed s2"
  shows "\<exists>s1' fs1 s2' fs2 fs2'.
           saveToCsv z1 y1 s1 fs = Inr (s1', fs1)
           \<and> saveToCsv z2 y2 s2 fs1 = Inr (s2', fs2)
           \<and> fs2 filename = Some (header @ csvRowsFrom z2 y2 (scraper_id s2) 0 s2)
           \<and> saveToCsv z2 y2 s2 Map.empty = Inr (s2', fs2')
           \<and> fs2' filename = fs2 filename"
  using saveToCsv_wellFormed [OF assms(1), of z1 y1 fs] saveToCsv_wellFormed [OF assms(2), of z2 y2]
  by simp

text \<open>The theorem on two runs of one article each.\<close>

theorem saveToCsv_overwrites_witness:
  "\<exists>s1' fs1 s2' fs2.
      saveToCsv utcZone 2024 (scrape [articleA] constructor) Map.empty = Inr (s1', fs1)
      \<and> fs1 filename
          = Some (''id | URL | headline | author | date'' @ [newline]
             @ ''1 | https://x/1 | '' @ [dquote] @ ''A'' @ [dquote] @ '' | Bob | 2024/1/5'' @ [newline])
      \<and> saveToCsv utcZone 2024 (scrape [articleB] constructor) fs1 = Inr (s2', fs2)
      \<and> fs2 filename
          = Some (''id | URL | headline | author | date'' @ [newline]
             @ ''1 | https://x/2 | '' @ [dquote] @ ''B'' @ [dquote] @ '' | Eve | 2024/3/14'' @ [newline])"
proof -
  have w: "wellFormed (scrape [articleA] constructor)" "wellFormed (scrape [articleB] constructor)"
    by (simp_all add: wellFormed_scrape wellFormed_constructor)
  have a: "header @ csvRowsFrom utcZone 2024 (scraper_id (scrape [articleB] constructor)) 0
             (scrape [articleB] constructor)
      = ''id | URL | headline | author | date'' @ [newline]
        @ ''1 | https://x/2 | '' @ [dquote] @ ''B'' @ [dquote] @ '' | Eve | 2024/3/14'' @ [newline]"
    by code_simp
  have b: "saveToCsv utcZone 2024 (scrape [articleA] constructor) Map.empty
      = Inr ((scrape [articleA] constructor)\<lparr>scraper_id := 1\<rparr>,
          [filename \<mapsto> ''id | URL | headline | author | date'' @ [newline]
             @ ''1 | https://x/1 | '' @ [dquote] @ ''A'' @ [dquote] @ '' | Bob | 2024/1/5'' @ [newline]])"
  proof -
    have "header @ csvRowsFrom utcZone 2024 (scraper_id (scrape [articleA] constructor)) 0
               (scrape [articleA] constructor)
        = ''id | URL | headline | author | date'' @ [newline]
          @ ''1 | https://x/1 | '' @ [dquote] @ ''A'' @ [dquote] @ '' | Bob | 2024/1/5'' @ [newline]"
      by code_simp
    moreover have "scraper_id (scrape [articleA] constructor) + length (headlines (scrape [articleA] constructor)) = 1"
      by code_simp
    ultimately show ?thesis
      using saveToCsv_wellFormed [OF w(1), of utcZone 2024 Map.empty] by simp
  qed
  show ?thesis
    using saveToCsv_overwrites [OF w, of utcZone 2024 Map.empty utcZone 2024] a b by auto
qed

section \<open>The counter of the scraper\<close>

text \<open>
  Claim C10. The counter is 0 at construction. A first write by an instance that has
  scraped \<open>data1\<close> leaves it at the number \<open>N\<close> of those articles; a second write by the
  same instance, after it has scraped \<open>data2\<close> (possibly nothing) as well, writes its
  \<open>M\<close> lines with the numbers \<open>N + 1\<close> to \<open>N + M\<close> after the header, and leaves the
  counter at \<open>N + M\<close>. The arrays are never emptied, so the second write covers the
  articles of \<open>data1\<close> again.
\<close>

theorem scraper_id_never_reset:
  "scraper_id constructor = 0
   \<and> (\<exists>s1 fs1 s2 fs2.
         saveToCsv z year (scrape data1 constructor) fs = Inr (s1, fs1)
         \<and> scraper_id s1 = length data1
         \<and> saveToCsv z' year' (scrape data2 s1) fs1 = Inr (s2, fs2)
         \<and> scraper_id s2 = length data1 + length (data1 @ data2)
         \<and> fs2 filename
             = Some (header
                 @ concat (map (\<lambda>i. csvLine (length data1 + i + 1)
                                       (Some (url ((data1 @ data2) ! i)))
                                       (Some (headline ((data1 @ data2) ! i)))
                                       (Some (author ((data1 @ data2) ! i)))
                                       (dateFormatConversion z' year' (date ((data1 @ data2) ! i))))
                               [0 ..< length (data1 @ data2)])))"
proof -
  define s0 where "s0 = scrape data1 constructor"
  define s1 where "s1 = s0\<lparr>scraper_id := length data1\<rparr>"
  define s where "s = scrape data2 s1"
  have w0: "wellFormed s0"
    by (simp add: s0_def wellFormed_scrape wellFormed_constructor)
  have 1: "saveToCsv z year s0 fs
      = Inr (s1, fs(filename \<mapsto> header @ csvRowsFrom z year (scraper_id s0) 0 s0))"
    using saveToCsv_wellFormed [OF w0, of z year fs]
    by (simp add: s1_def s0_def scrape_fields constructor_def)
  have w: "wellFormed s"
    using w0 by (simp add: s_def s1_def wellFormed_scrape)
  have f: "headlines s = map headline (data1 @ data2)" "urls s = map url (data1 @ data2)"
    "authors s = map author (data1 @ data2)" "dates s = map date (data1 @ data2)"
    "scraper_id s = length data1"
    by (simp_all add: s_def s1_def s0_def scrape_fields constructor_def)
  have rows: "csvRowsFrom z' year' (length data1) 0 s
      = concat (map (\<lambda>i. csvLine (length data1 + i + 1)
                                       (Some (url ((data1 @ data2) ! i)))
                                       (Some (headline ((data1 @ data2) ! i)))
                                       (Some (author ((data1 @ data2) ! i)))
                                       (dateFormatConversion z' year' (date ((data1 @ data2) ! i))))
                               [0 ..< length (data1 @ data2)])"
    unfolding csvRowsFrom_def f
    by (rule arg_cong [where f = concat]) (simp del: map_append add: nth_map)
  have 2: "saveToCsv z' year' s (fs(filename \<mapsto> header @ csvRowsFrom z year (scraper_id s0) 0 s0))
      = Inr (s\<lparr>scraper_id := length data1 + length (data1 @ data2)\<rparr>,
             fs(filename \<mapsto> header @ csvRowsFrom z' year' (length data1) 0 s))"
    using saveToCsv_wellFormed [OF w, of z' year'] by (simp add: f)
  have "scraper_id constructor = 0"
    by (simp add: constructor_def)
  moreover have "scraper_id s1 = length data1"
    by (simp add: s1_def)
  ultimately show ?thesis
    unfolding s0_def [symmetric] using 1 2 [unfolded s_def] rows [unfolded s_def] by simp
qed


text \<open>The theorem on one article written twice.\<close>

theorem scraper_id_never_reset_witness:
  "\<exists>s1 fs1 s2 fs2.
      saveToCsv utcZone 2024 (scrape [articleA] constructor) Map.empty = Inr (s1, fs1)
      \<and> scraper_id s1 = 1
      \<and> saveToCsv utcZone 2024 (scrape [] s1) fs1 = Inr (s2, fs2)
      \<and> scraper_id s2 = 2
      \<and> fs2 filename
          = Some (''id | URL | headline | author | date'' @ [newline]
             @ ''2 | https://x/1 | '' @ [dquote] @ ''A'' @ [dquote] @ '' | Bob | 2024/1/5'' @ [newline])"
proof -
  have "header
        @ concat (map (\<lambda>i. csvLine (length [articleA] + i + 1)
                              (Some (url (([articleA] @ []) ! i)))
                              (Some (headline (([articleA] @ []) ! i)))
                              (Some (author (([articleA] @ []) ! i)))
                              (dateFormatConversion utcZone 2024 (date (([articleA] @ []) ! i))))
                      [0 ..< length ([articleA] @ [])])
      = ''id | URL | headline | author | date'' @ [newline]
        @ ''2 | https://x/1 | '' @ [dquote] @ ''A'' @ [dquote] @ '' | Bob | 2024/1/5'' @ [newline]"
    by code_simp
  then show ?thesis
    using scraper_id_never_reset [of utcZone 2024 "[articleA]" Map.empty utcZone 2024 "[]"]
    by (simp add: eval_nat_numeral)
qed

section \<open>The rows of the database\<close>

text \<open>
  Claim C1 does not hold of the code. The comment above the insert says
  \<open>de-duplicate by URL\<close>, but the statement is a plain \<open>INSERT\<close> and the table has no
  uniqueness constraint on \<open>url\<close>: persisting one article in two runs leaves two rows
  with the same URL, while one run leaves one row.
\<close>

theorem saveToDatabase_twice_duplicates:
  "saveToDatabase None (scrape [articleA] constructor)
     (saveToDatabase None (scrape [articleA] constructor) None)
   = Some [\<lparr>col_id = 1, col_url = Some ''https://x/1'', col_headline = Some ''A'',
             col_author = Some ''Bob'', col_date = Some ''Jan 5''\<rparr>,
           \<lparr>col_id = 2, col_url = Some ''https://x/1'', col_headline = Some ''A'',
             col_author = Some ''Bob'', col_date = Some ''Jan 5''\<rparr>]
   \<and> saveToDatabase None (scrape [articleA] constructor) None
   = Some [\<lparr>col_id = 1, col_url = Some ''https://x/1'', col_headline = Some ''A'',
             col_author = Some ''Bob'', col_date = Some ''Jan 5''\<rparr>]"
  by code_simp

section \<open>The dates in the two sinks\<close>

text \<open>
  The claim C4 as stated fails: the text file does not hold a date of the form
  \<open>YYYY/M/D\<close> for every record, and the two sinks do not differ on every record. For
  the article below, whose raw date is \<open>NaN/NaN/NaN\<close>, the row of the database and the
  line of the text file hold the same string, which is no date.
\<close>

theorem sinks_hold_raw_and_converted_dates_counterexample:
  "date articleNaN = ''NaN/NaN/NaN''
   \<and> fileAfter (saveToCsv utcZone 2024 (scrape [articleNaN] constructor) Map.empty)
       = Some (''id | URL | headline | author | date'' @ [newline]
           @ ''1 | https://x/1 | '' @ [dquote] @ ''A'' @ [dquote] @ '' | Bob | NaN/NaN/NaN''
           @ [newline])
   \<and> saveToDatabase None (scrape [articleNaN] constructor) None
       = Some [\<lparr>col_id = 1, col_url = Some ''https://x/1'', col_headline = Some ''A'',
                 col_author = Some ''Bob'', col_date = Some ''NaN/NaN/NaN''\<rparr>]"
  by code_simp

text \<open>
  Claim C4, amended. For every list of scraped articles, the write to the database
  inserts one row per article whose \<open>date\<close> column is the raw date of the article, and
  the write to the text file puts the result of \<open>dateFormatConversion\<close> on the same raw
  date in the line of the article: either the string \<open>NaN/NaN/NaN\<close>, or three numbers
  in decimal joined by \<open>/\<close>. The two strings differ for every article whose raw date
  is not the literal \<open>NaN/NaN/NaN\<close>, the one string the conversion returns unchanged.
\<close>

theorem sinks_hold_raw_and_converted_dates:
  "\<exists>s' fs'.
     saveToCsv z year (scrape data constructor) fs = Inr (s', fs')
     \<and> fs' filename
         = Some (header
             @ concat (map (\<lambda>i. csvLine (i + 1) (Some (url (data ! i)))
                                   (Some (headline (data ! i))) (Some (author (data ! i)))
                                   (dateFormatConversion z year (date (data ! i))))
                           [0 ..< length data]))
     \<and> saveToDatabase None (scrape data constructor) db
         = Some (createTableIfNotExists db
             @ map (\<lambda>i. \<lparr>col_id = nextRowid (createTableIfNotExists db) + i,
                          col_url = Some (url (data ! i)),
                          col_headline = Some (headline (data ! i)),
                          col_author = Some (author (data ! i)),
                          col_date = Some (date (data ! i))\<rparr>)
                 [0 ..< length data])
     \<and> (\<forall>i < length data.
           (dateFormatConversion z year (date (data ! i)) = ''NaN/NaN/NaN''
            \<or> (\<exists>y m d. dateFormatConversion z year (date (data ! i))
                          = showInt y @ ''/'' @ showInt m @ ''/'' @ showInt d))
           \<and> (date (data ! i) \<noteq> ''NaN/NaN/NaN''
                \<longrightarrow> dateFormatConversion z year (date (data ! i)) \<noteq> date (data ! i)))"
proof -
  have w: "wellFormed (scrape data constructor)"
    by (simp add: wellFormed_scrape wellFormed_constructor)
  have "scraper_id (scrape data constructor) = 0"
    by (simp add: scrape_fields constructor_def)
  then have "saveToCsv z year (scrape data constructor) fs
      = Inr ((scrape data constructor)\<lparr>scraper_id := 0 + length (headlines (scrape data constructor))\<rparr>,
             fs(filename \<mapsto> header @ csvRowsFrom z year 0 0 (scrape data constructor)))"
    using saveToCsv_wellFormed [OF w, of z year fs] by simp
  moreover have "\<forall>i < length data.
      (dateFormatConversion z year (date (data ! i)) = ''NaN/NaN/NaN''
       \<or> (\<exists>y m d. dateFormatConversion z year (date (data ! i))
                     = showInt y @ ''/'' @ showInt m @ ''/'' @ showInt d))
      \<and> (date (data ! i) \<noteq> ''NaN/NaN/NaN''
           \<longrightarrow> dateFormatConversion z year (date (data ! i)) \<noteq> date (data ! i))"
    using dateFormatConversion_form dateFormatConversion_fixed_point by blast
  ultimately show ?thesis
    by (simp add: csvRowsFrom_scrape saveToDatabase_scrape)
qed

text \<open>The theorem on the article of the end-to-end scenario.\<close>

theorem sinks_hold_raw_and_converted_dates_witness:
  "\<exists>s' fs'.
     saveToCsv utcZone 2024 (scrape [articleA] constructor) Map.empty = Inr (s', fs')
     \<and> fs' filename
         = Some (''id | URL | headline | author | date'' @ [newline]
             @ ''1 | https://x/1 | '' @ [dquote] @ ''A'' @ [dquote] @ '' | Bob | 2024/1/5'' @ [newline])
     \<and> saveToDatabase None (scrape [articleA] constructor) None
         = Some [\<lparr>col_id = 1, col_url = Some ''https://x/1'', col_headline = Some ''A'',
                   col_author = Some ''Bob'', col_date = Some ''Jan 5''\<rparr>]
     \<and> dateFormatConversion utcZone 2024 ''Jan 5'' \<noteq> ''Jan 5''"
proof -
  have a: "header
        @ concat (map (\<lambda>i. csvLine (i + 1) (Some (url ([articleA] ! i)))
                              (Some (headline ([articleA] ! i))) (Some (author ([articleA] ! i)))
                              (dateFormatConversion utcZone 2024 (date ([articleA] ! i))))
                      [0 ..< length [articleA]])
      = ''id | URL | headline | author | date'' @ [newline]
        @ ''1 | https://x/1 | '' @ [dquote] @ ''A'' @ [dquote] @ '' | Bob | 2024/1/5'' @ [newline]"
    by code_simp
  have b: "createTableIfNotExists None
        @ map (\<lambda>i. \<lparr>col_id = nextRowid (createTableIfNotExists None) + i,
                     col_url = Some (url ([articleA] ! i)),
                     col_headline = Some (headline ([articleA] ! i)),
                     col_author = Some (author ([articleA] ! i)),
                     col_date = Some (date ([articleA] ! i))\<rparr>)
            [0 ..< length [articleA]]
      = [\<lparr>col_id = 1, col_url = Some ''https://x/1'', col_headline = Some ''A'',
           col_author = Some ''Bob'', col_date = Some ''Jan 5''\<rparr>]"
    by code_simp
  have c: "date ([articleA] ! 0) = ''Jan 5''" "0 < length [articleA]"
    "date ([articleA] ! 0) \<noteq> ''NaN/NaN/NaN''"
    by (simp_all add: articleA_def)
  from sinks_hold_raw_and_converted_dates [where z = utcZone and year = 2024
      and data = "[articleA]" and fs = Map.empty and db = None]
  obtain s' fs' where r: "saveToCsv utcZone 2024 (scrape [articleA] constructor) Map.empty = Inr (s', fs')"
    "fs' filename = Some (header
        @ concat (map (\<lambda>i. csvLine (i + 1) (Some (url ([articleA] ! i)))
                              (Some (headline ([articleA] ! i))) (Some (author ([articleA] ! i)))
                              (dateFormatConversion utcZone 2024 (date ([articleA] ! i))))
                      [0 ..< length [articleA]]))"
    "saveToDatabase None (scrape [articleA] constructor) None
       = Some (createTableIfNotExists None
        @ map (\<lambda>i. \<lparr>col_id = nextRowid (createTableIfNotExists None) + i,
                     col_url = Some (url ([articleA] ! i)),
                     col_headline = Some (headline ([articleA] ! i)),
                     col_author = Some (author ([articleA] ! i)),
                     col_date = Some (date ([articleA] ! i))\<rparr>)
            [0 ..< length [articleA]])"
    "\<forall>i < length [articleA].
           date ([articleA] ! i) \<noteq> ''NaN/NaN/NaN''
           \<longrightarrow> dateFormatConversion utcZone 2024 (date ([articleA] ! i)) \<noteq> date ([articleA] ! i)"
    by blast
  from r(4) c have "dateFormatConversion utcZone 2024 ''Jan 5'' \<noteq> ''Jan 5''"
    by metis
  then show ?thesis
    using r(1) r(2) [unfolded a] r(3) [unfolded b] by blast
qed

section \<open>The checks of the verification\<close>

text \<open>
  The claim C9 as stated fails. On a file whose first line is not the header, the
  verification prints the header message and returns: the second line, which fails
  the check of the number of fields, is not reported, and the count query, which would
  fail on a database without the table, is not run.
\<close>

theorem verify_short_circuit_counterexample:
  "verify constructor (''wrong header'' @ [newline] @ ''x'' @ [newline]) None = [HeaderMismatch]
   \<and> checkLine 1 ''x'' = [FieldCount 2]
   \<and> checkDatabase None constructor = [QueryError]"
  by code_simp

text \<open>
  Claim C9, amended. The verification returns a report and throws nothing. A header
  that does not match ends it with that one message. With a matching header, the
  result of the count query is reported whatever the lines are, and every data line is
  checked whatever the other lines are: a line that does not split into 5 fields is
  reported as such and nothing else is checked on it; on a line of 5 fields, the
  checks of the id, the URL, the headline, the author and the date are each reported
  exactly when they fail, independently of one another.
\<close>

theorem verify_checks:
  "(trim (splitOn newline csvData ! 0) \<noteq> headerText
      \<longrightarrow> verify s csvData db = [HeaderMismatch])
   \<and> (trim (splitOn newline csvData ! 0) = headerText
      \<longrightarrow> set (checkDatabase db s) \<subseteq> set (verify s csvData db)
        \<and> (\<forall>i \<in> set (dataLineIndices (splitOn newline csvData)).
             let fields = csvFields (splitOn newline csvData ! i);
                 report = set (verify s csvData db)
             in (FieldCount (i + 1) \<in> report \<longleftrightarrow> length fields \<noteq> 5)
              \<and> (InvalidId (i + 1) \<in> report
                   \<longleftrightarrow> length fields = 5 \<and> parseInt (fields ! 0) = None)
              \<and> (InvalidUrl (i + 1) \<in> report
                   \<longleftrightarrow> length fields = 5 \<and> \<not> startsWith (fields ! 1) ''http'')
              \<and> (EmptyHeadline (i + 1) \<in> report
                   \<longleftrightarrow> length fields = 5 \<and> fields ! 2 = [])
              \<and> (EmptyAuthor (i + 1) \<in> report
                   \<longleftrightarrow> length fields = 5 \<and> fields ! 3 = [])
              \<and> (EmptyDate (i + 1) \<in> report
                   \<longleftrightarrow> length fields = 5 \<and> fields ! 4 = [])))"
proof (intro conjI impI ballI)
  assume "trim (splitOn newline csvData ! 0) \<noteq> headerText"
  then show "verify s csvData db = [HeaderMismatch]"
    by (rule verify_header_mismatch)
next
  assume h: "trim (splitOn newline csvData ! 0) = headerText"
  show "set (checkDatabase db s) \<subseteq> set (verify s csvData db)"
    unfolding verify_header_ok [OF h] by blast
  fix i
  assume i: "i \<in> set (dataLineIndices (splitOn newline csvData))"
  note m = line_message_in_verify [OF h i, of _ s db]
  show "let fields = csvFields (splitOn newline csvData ! i);
            report = set (verify s csvData db)
        in (FieldCount (i + 1) \<in> report \<longleftrightarrow> length fields \<noteq> 5)
         \<and> (InvalidId (i + 1) \<in> report
              \<longleftrightarrow> length fields = 5 \<and> parseInt (fields ! 0) = None)
         \<and> (InvalidUrl (i + 1) \<in> report
              \<longleftrightarrow> length fields = 5 \<and> \<not> startsWith (fields ! 1) ''http'')
         \<and> (EmptyHeadline (i + 1) \<in> report
              \<longleftrightarrow> length fields = 5 \<and> fields ! 2 = [])
         \<and> (EmptyAuthor (i + 1) \<in> report
              \<longleftrightarrow> length fields = 5 \<and> fields ! 3 = [])
         \<and> (EmptyDate (i + 1) \<in> report
              \<longleftrightarrow> length fields = 5 \<and> fields ! 4 = [])"
    unfolding Let_def
    by (simp add: m) (simp add: checkLine_def Let_def)
qed


text \<open>
  The theorem on a file with a wrong header, and on a file whose one line fails all
  five field checks: each is reported, and so is the result of the count query.
\<close>

theorem verify_checks_witness:
  "verify constructor ''no header'' None = [HeaderMismatch]
   \<and> InvalidId 2 \<in> set (verify constructor badRows (Some []))
   \<and> InvalidUrl 2 \<in> set (verify constructor badRows (Some []))
   \<and> EmptyHeadline 2 \<in> set (verify constructor badRows (Some []))
   \<and> EmptyAuthor 2 \<in> set (verify constructor badRows (Some []))
   \<and> EmptyDate 2 \<in> set (verify constructor badRows (Some []))
   \<and> FieldCount 2 \<notin> set (verify constructor badRows (Some []))
   \<and> AllTestsPassed \<in> set (verify constructor badRows (Some []))"
proof -
  have o: "trim (splitOn newline ''no header'' ! 0) \<noteq> headerText"
    by code_simp
  have h: "trim (splitOn newline badRows ! 0) = headerText"
    by code_simp
  have i: "1 \<in> set (dataLineIndices (splitOn newline badRows))"
    by code_simp
  have f: "csvFields (splitOn newline badRows ! 1) = [''x'', ''ftp://y'', [], [], []]"
    by code_simp
  have p: "parseInt ''x'' = None" "\<not> startsWith ''ftp://y'' ''http''"
    by code_simp+
  have d: "checkDatabase (Some []) constructor = [AllTestsPassed]"
    by code_simp
  note t = verify_checks [of badRows constructor "Some []"]
  from t h have "set (checkDatabase (Some []) constructor) \<subseteq> set (verify constructor badRows (Some []))"
    by blast
  then have a: "AllTestsPassed \<in> set (verify constructor badRows (Some []))"
    by (simp add: d)
  from t h i have "let fields = csvFields (splitOn newline badRows ! 1);
                 report = set (verify constructor badRows (Some []))
             in (FieldCount (1 + 1) \<in> report \<longleftrightarrow> length fields \<noteq> 5)
              \<and> (InvalidId (1 + 1) \<in> report
                   \<longleftrightarrow> length fields = 5 \<and> parseInt (fields ! 0) = None)
              \<and> (InvalidUrl (1 + 1) \<in> report
                   \<longleftrightarrow> length fields = 5 \<and> \<not> startsWith (fields ! 1) ''http'')
              \<and> (EmptyHeadline (1 + 1) \<in> report
                   \<longleftrightarrow> length fields = 5 \<and> fields ! 2 = [])
              \<and> (EmptyAuthor (1 + 1) \<in> report
                   \<longleftrightarrow> length fields = 5 \<and> fields ! 3 = [])
              \<and> (EmptyDate (1 + 1) \<in> report
                   \<longleftrightarrow> length fields = 5 \<and> fields ! 4 = [])"
    by blast
  then have b: "InvalidId 2 \<in> set (verify constructor badRows (Some []))
   \<and> InvalidUrl 2 \<in> set (verify constructor badRows (Some []))
   \<and> EmptyHeadline 2 \<in> set (verify constructor badRows (Some []))
   \<and> EmptyAuthor 2 \<in> set (verify constructor badRows (Some []))
   \<and> EmptyDate 2 \<in> set (verify constructor badRows (Some []))
   \<and> FieldCount 2 \<notin> set (verify constructor badRows (Some []))"
    unfolding Let_def f using p by (simp add: eval_nat_numeral)
  from verify_checks [of "''no header''" constructor None] o
  have "verify constructor ''no header'' None = [HeaderMismatch]"
    by blast
  then show ?thesis
    using a b by blast
qed

section \<open>Writing the text file and reading it back\<close>

text \<open>
  The claim C8 as stated fails. The article below has no separator and no line feed in
  its fields and a date that parses, but its author is empty: the row read back has an
  empty fourth field.
\<close>

theorem csv_round_trip_counterexample:
  "CHR ''|'' \<notin> set (url articleNoAuthor @ headline articleNoAuthor @ author articleNoAuthor)
   \<and> newline \<notin> set (url articleNoAuthor @ headline articleNoAuthor @ author articleNoAuthor)
   \<and> getMonthIndex (date articleNoAuthor) = Some 0
   \<and> getDate (date articleNoAuthor) = Some ''5''
   \<and> map_option parsedRows
         (fileAfter (saveToCsv utcZone 2024 (scrape [articleNoAuthor] constructor) Map.empty))
       = Some [[''1'', ''https://x/1'', [dquote, CHR ''A'', dquote], [], ''2024/1/5'']]"
  by code_simp

text \<open>
  Claim C8, amended. For every list of articles whose URL, headline and author contain
  no separator and no line feed, whose URL begins with \<open>http\<close> and whose author is not
  blank (the raw dates may be anything), writing the file with a new scraper and
  reading it back gives exactly one row per article, in order: the number, the trimmed
  URL, the headline in double quotes, the trimmed author and the converted date. Each
  row has exactly 5 fields, none of them empty, the first parses as an integer and the
  second begins with \<open>http\<close>; the verification reports nothing about the file.
\<close>

theorem csv_round_trip:
  assumes "\<forall>a \<in> set data. cleanArticle a"
  shows "\<exists>s' fs' csvData.
           saveToCsv z year (scrape data constructor) fs = Inr (s', fs')
           \<and> fs' filename = Some csvData
           \<and> parsedRows csvData
               = map (\<lambda>i. [showNat (i + 1), trim (url (data ! i)),
                            [dquote] @ headline (data ! i) @ [dquote],
                            trim (author (data ! i)),
                            dateFormatConversion z year (date (data ! i))])
                     [0 ..< length data]
           \<and> length (parsedRows csvData) = length data
           \<and> (\<forall>fields \<in> set (parsedRows csvData).
                 length fields = 5 \<and> (\<forall>f \<in> set fields. f \<noteq> [])
                 \<and> parseInt (fields ! 0) \<noteq> None \<and> startsWith (fields ! 1) ''http'')
           \<and> verify s' csvData db = checkDatabase db s'"
proof -
  define line where "line = (\<lambda>i. csvText (i + 1) (url (data ! i)) (headline (data ! i))
    (author (data ! i)) (dateFormatConversion z year (date (data ! i))))"
  define bs where "bs = map line [0 ..< length data]"
  define row where "row = (\<lambda>i. [showNat (i + 1), trim (url (data ! i)),
    [dquote] @ headline (data ! i) @ [dquote], trim (author (data ! i)),
    dateFormatConversion z year (date (data ! i))])"
  define csvData where "csvData = header @ concat (map (\<lambda>l. l @ [newline]) bs)"
  define s' where "s' = (scrape data constructor)\<lparr>scraper_id := length data\<rparr>"
  have w: "wellFormed (scrape data constructor)"
    by (simp add: wellFormed_scrape wellFormed_constructor)
  have "scraper_id (scrape data constructor) = 0"
    "length (headlines (scrape data constructor)) = length data"
    by (simp_all add: scrape_fields constructor_def)
  moreover have "csvRowsFrom z year 0 0 (scrape data constructor) = concat (map (\<lambda>l. l @ [newline]) bs)"
    unfolding csvRowsFrom_scrape bs_def line_def
    by (rule arg_cong [where f = concat]) (simp add: csvLine_csvText)
  ultimately have 1: "saveToCsv z year (scrape data constructor) fs = Inr (s', fs(filename \<mapsto> csvData))"
    using saveToCsv_wellFormed [OF w, of z year fs] by (simp add: s'_def csvData_def)
  have clean: "cleanArticle (data ! i)" if "i < length data" for i
    using assms that by simp
  have n: "\<forall>l \<in> set bs. newline \<notin> set l"
    using clean_line(1) [OF clean] by (auto simp: bs_def line_def)
  have "map csvFields bs = map row [0 ..< length data]"
    using clean_line(2) [OF clean] by (simp add: bs_def line_def row_def)
  then have 2: "parsedRows csvData = map row [0 ..< length data]"
    unfolding csvData_def using parsedRows_of_lines(2) [OF n] by simp
  have r: "length (row i) = 5 \<and> (\<forall>f \<in> set (row i). f \<noteq> [])
      \<and> parseInt (row i ! 0) \<noteq> None \<and> startsWith (row i ! 1) ''http''" if "i < length data" for i
  proof -
    have "startsWith (trim (url (data ! i))) ''http''"
      using clean [OF that] http_ends by (intro trim_startsWith) (simp_all add: cleanArticle_def)
    moreover have "trim (author (data ! i)) \<noteq> []"
      using clean [OF that] by (simp add: cleanArticle_def)
    ultimately show ?thesis
      using dateFormatConversion_dateChars [of z year "date (data ! i)"]
        startsWith_not_Nil [of "trim (url (data ! i))" "''http''"]
      by (simp add: row_def parseInt_showNat showNat_not_Nil)
  qed
  have 3: "\<forall>fields \<in> set (parsedRows csvData).
      length fields = 5 \<and> (\<forall>f \<in> set fields. f \<noteq> [])
      \<and> parseInt (fields ! 0) \<noteq> None \<and> startsWith (fields ! 1) ''http''"
    unfolding 2 using r by auto
  have "\<forall>i < length bs. checkLine (Suc i) (bs ! i) = []"
    using clean_line(3) [OF clean] by (simp add: bs_def line_def)
  then have 4: "verify s' csvData db = checkDatabase db s'"
    unfolding csvData_def using n by (intro verify_of_lines)
  show ?thesis
    using 1 2 3 4 unfolding row_def by (intro exI [of _ s'] exI [of _ "fs(filename \<mapsto> csvData)"]
      exI [of _ csvData]) simp
qed

text \<open>The theorem on two articles.\<close>

theorem csv_round_trip_witness:
  "cleanArticle articleA \<and> cleanArticle articleB
   \<and> (\<exists>s' fs' csvData.
         saveToCsv utcZone 2024 (scrape [articleA, articleB] constructor) Map.empty = Inr (s', fs')
         \<and> fs' filename = Some csvData
         \<and> parsedRows csvData
             = [[''1'', ''https://x/1'', [dquote, CHR ''A'', dquote], ''Bob'', ''2024/1/5''],
                [''2'', ''https://x/2'', [dquote, CHR ''B'', dquote], ''Eve'', ''2024/3/14'']]
         \<and> verify s' csvData None = [QueryError])"
proof -
  have c: "cleanArticle articleA" "cleanArticle articleB"
    by code_simp+
  then have h: "\<forall>a \<in> set [articleA, articleB]. cleanArticle a"
    by simp
  have r: "map (\<lambda>i. [showNat (i + 1), trim (url ([articleA, articleB] ! i)),
                      [dquote] @ headline ([articleA, articleB] ! i) @ [dquote],
                      trim (author ([articleA, articleB] ! i)),
                      dateFormatConversion utcZone 2024 (date ([articleA, articleB] ! i))])
               [0 ..< length [articleA, articleB]]
      = [[''1'', ''https://x/1'', [dquote, CHR ''A'', dquote], ''Bob'', ''2024/1/5''],
         [''2'', ''https://x/2'', [dquote, CHR ''B'', dquote], ''Eve'', ''2024/3/14'']]"
    by code_simp
  have q: "checkDatabase None s = [QueryError]" for s
    by (simp add: checkDatabase_def)
  show ?thesis
    using csv_round_trip [OF h, where z = utcZone and year = 2024 and fs = Map.empty
        and db = None] c unfolding r q by blast
qed

end
